theory Spec2Isabelle
  imports Main
begin

section \<open>JavaScript strings and arrays\<close>

text \<open>
  A string of \<^verbatim>\<open>geminiService.ts\<close> is a sequence of code units; a \<^typ>\<open>char\<close> stands for
  the code unit of the same number (U+0000 to U+00FF). \<open>isWhiteSpace\<close> lists the code
  units of that range that \<^verbatim>\<open>String.prototype.trim\<close> removes (WhiteSpace and
  LineTerminator of ECMAScript): TAB, LF, VT, FF, CR, SP and NBSP.
\<close>

definition isWhiteSpace :: "char \<Rightarrow> bool" where
  "isWhiteSpace c =
     (c = CHR 0x09 \<or> c = CHR 0x0A \<or> c = CHR 0x0B \<or> c = CHR 0x0C \<or> c = CHR 0x0D
      \<or> c = CHR 0x20 \<or> c = CHR 0xA0)"

definition trim :: "string \<Rightarrow> string" where
  "trim s = rev (dropWhile isWhiteSpace (rev (dropWhile isWhiteSpace s)))"

text \<open>
  \<^verbatim>\<open>toLowerCase\<close> on the code units below 256: A to Z, and U+00C0 to U+00DE except the
  multiplication sign U+00D7, move up by 32; every other code unit stays.
\<close>

definition lowerChar :: "char \<Rightarrow> char" where
  "lowerChar c =
     (let n = (of_char c :: nat) in
      if (65 \<le> n \<and> n \<le> 90) \<or> (192 \<le> n \<and> n \<le> 222 \<and> n \<noteq> 215)
      then char_of (n + 32) else c)"

definition toLowerCase :: "string \<Rightarrow> string" where
  "toLowerCase s = map lowerChar s"

definition startsWith :: "string \<Rightarrow> string \<Rightarrow> bool" where
  "startsWith s p = (take (length p) s = p)"

definition endsWith :: "string \<Rightarrow> string \<Rightarrow> bool" where
  "endsWith s p = (length p \<le> length s \<and> drop (length s - length p) s = p)"

text \<open>\<^verbatim>\<open>s.includes(p)\<close>: \<open>p\<close> occurs in \<open>s\<close> as a contiguous run.\<close>

fun includes_str :: "string \<Rightarrow> string \<Rightarrow> bool" where
  "includes_str [] p = (p = [])"
| "includes_str (c # cs) p = (startsWith (c # cs) p \<or> includes_str cs p)"

text \<open>
  \<^verbatim>\<open>s.split(sep)\<close> for a separator of one code unit: the result is never empty, and the
  empty string splits into one empty field.
\<close>

fun split :: "char \<Rightarrow> string \<Rightarrow> string list" where
  "split sep [] = [[]]"
| "split sep (c # cs) =
     (if c = sep then [] # split sep cs
      else (case split sep cs of [] \<Rightarrow> [[c]] | f # fs \<Rightarrow> (c # f) # fs))"

text \<open>\<^verbatim>\<open>xs.join(sep)\<close> on an array of strings.\<close>

fun join :: "char \<Rightarrow> string list \<Rightarrow> string" where
  "join sep [] = []"
| "join sep [x] = x"
| "join sep (x # y # ys) = x @ sep # join sep (y # ys)"

text \<open>\<^verbatim>\<open>xs.indexOf(x)\<close>; \<open>None\<close> stands for the result -1.\<close>

fun indexOf :: "'a list \<Rightarrow> 'a \<Rightarrow> nat option" where
  "indexOf [] x = None"
| "indexOf (y # ys) x = (if y = x then Some 0 else map_option Suc (indexOf ys x))"

section \<open>The extraction client: \<^verbatim>\<open>callGeminiWithRetry\<close>\<close>

definition MAX_RETRIES :: nat where
  "MAX_RETRIES = 3"

definition INITIAL_RETRY_DELAY_MS :: nat where
  "INITIAL_RETRY_DELAY_MS = 1000"

definition CHUNK_SIZE :: nat where
  "CHUNK_SIZE = 20"

text \<open>
  The errors the service throws, named as the specification names them; \<open>errorMessage\<close>
  is the text of the \<^verbatim>\<open>Error\<close> the source constructs.
\<close>

datatype error =
    ConfigurationError
  | InvalidDocumentError
  | ServiceBusyError
  | ExtractionFailedError
  | EmptyResultError

fun errorMessage :: "error \<Rightarrow> string" where
  "errorMessage ConfigurationError = ''API_KEY is not configured in your environment.''"
| "errorMessage InvalidDocumentError = ''The PDF file is empty or corrupted.''"
| "errorMessage ServiceBusyError = ''The AI model is busy. Please try again in a moment.''"
| "errorMessage ExtractionFailedError =
     ''Failed to convert a page. The file may be corrupted or in an unsupported format.''"
| "errorMessage EmptyResultError =
     ''Conversion resulted in empty or incomplete data. The PDF might not contain a valid runsheet.''"

text \<open>
  One request to \<^verbatim>\<open>ai.models.generateContent\<close> either resolves with a response, whose
  \<^verbatim>\<open>text\<close> may be undefined, or throws; the thrown value is kept as the message of
  \<^verbatim>\<open>lastError\<close>.
\<close>

datatype api_result = Response "string option" | Failure string

text \<open>What the client does that the outside can see: a request (with the attempt index) or a sleep.\<close>

datatype event = Request nat | Wait nat

text \<open>
  \<^verbatim>\<open>text.replace(/^```(?:csv)?\n?/, '')\<close>: the pattern is anchored at the start of the
  string; both optional parts are greedy and nothing follows them, so each is taken when
  it is there.
\<close>

definition stripLeadingFence :: "string \<Rightarrow> string" where
  "stripLeadingFence s =
     (if startsWith s ''```'' then
        (let r1 = drop 3 s;
             r2 = (if startsWith r1 ''csv'' then drop 3 r1 else r1)
         in if startsWith r2 ''\<newline>'' then drop 1 r2 else r2)
      else s)"

text \<open>\<^verbatim>\<open>.replace(/```$/, '')\<close>: without the \<^verbatim>\<open>m\<close> flag, \<^verbatim>\<open>$\<close> is the end of the string.\<close>

definition stripTrailingFence :: "string \<Rightarrow> string" where
  "stripTrailingFence s = (if endsWith s ''```'' then take (length s - 3) s else s)"

text \<open>\<^verbatim>\<open>response.text ?? ''\<close>\<close>

definition responseText :: "string option \<Rightarrow> string" where
  "responseText t = (case t of None \<Rightarrow> [] | Some x \<Rightarrow> x)"

definition cleanResponse :: "string option \<Rightarrow> string" where
  "cleanResponse t =
     (let text = responseText t
      in trim (stripTrailingFence (stripLeadingFence text)))"

text \<open>The test both the retry loop and the final classification apply to an error message.\<close>

definition isTransient :: "string \<Rightarrow> bool" where
  "isTransient message =
     (let errorMessage = toLowerCase message
      in includes_str errorMessage ''internal'' \<or> includes_str errorMessage ''500'')"

text \<open>The code after the loop: it always throws, one of two errors.\<close>

definition finalError :: "string option \<Rightarrow> error" where
  "finalError lastError =
     (let message = (case lastError of
                       None \<Rightarrow> ''An unknown error occurred during conversion.''
                     | Some m \<Rightarrow> m)
      in if isTransient message then ServiceBusyError else ExtractionFailedError)"

text \<open>
  The \<^verbatim>\<open>for\<close> loop of \<^verbatim>\<open>callGeminiWithRetry\<close>. \<open>gen k\<close> is the outcome of the request
  of attempt \<open>k\<close>; the loop state is the attempt index, \<^verbatim>\<open>lastError\<close> and the events so
  far. A transient failure on the last attempt neither continues nor breaks: the loop
  header ends the loop.
\<close>

function retryLoop ::
  "(nat \<Rightarrow> api_result) \<Rightarrow> nat \<Rightarrow> string option \<Rightarrow> event list \<Rightarrow> (error + string) \<times> event list"
where
  "retryLoop gen attempt lastError evs =
     (if attempt < MAX_RETRIES then
        (case gen attempt of
           Response t \<Rightarrow> (Inr (cleanResponse t), evs @ [Request attempt])
         | Failure message \<Rightarrow>
             if isTransient message then
               (if attempt < MAX_RETRIES - 1 then
                  retryLoop gen (attempt + 1) (Some message)
                    (evs @ [Request attempt, Wait (INITIAL_RETRY_DELAY_MS * 2 ^ attempt)])
                else retryLoop gen (attempt + 1) (Some message) (evs @ [Request attempt]))
             else (Inl (finalError (Some message)), evs @ [Request attempt]))
      else (Inl (finalError lastError), evs))"
  by pat_completeness auto
termination
  by (relation "measure (\<lambda>(gen, attempt, lastError, evs). MAX_RETRIES - attempt)") auto

definition callGeminiWithRetry :: "(nat \<Rightarrow> api_result) \<Rightarrow> (error + string) \<times> event list" where
  "callGeminiWithRetry gen = retryLoop gen 0 None []"

section \<open>The fill-down correction: \<^verbatim>\<open>applyFillDownLogic\<close>\<close>

text \<open>
  \<^verbatim>\<open>s.replace(/^"|"$/g, '')\<close>: with the \<^verbatim>\<open>g\<close> flag both alternatives are replaced; the
  first can only match the first code unit, the second only the last one, and a string
  that is one quote is used up by the first.
\<close>

definition stripQuotes :: "string \<Rightarrow> string" where
  "stripQuotes s =
     (let s1 = (if startsWith s [CHR 0x22] then drop 1 s else s)
      in if endsWith s1 [CHR 0x22] then take (length s1 - 1) s1 else s1)"

text \<open>
  \<^verbatim>\<open>unquote = (s) => s?.trim().replace(/^"|"$/g, '') || ''\<close>. The argument is \<open>None\<close> when
  the source reads a row beyond its length and gets \<^verbatim>\<open>undefined\<close>; the optional chain then
  yields \<^verbatim>\<open>undefined\<close> and the result is the empty string.
\<close>

definition unquote :: "string option \<Rightarrow> string" where
  "unquote s = (case s of None \<Rightarrow> [] | Some x \<Rightarrow> stripQuotes (trim x))"

text \<open>
  A data row is a JavaScript array of fields. Writing beyond the length of an array extends
  it and leaves holes, which read as \<^verbatim>\<open>undefined\<close>: \<open>None\<close> is such a slot.
\<close>

type_synonym row = "string option list"

definition getField :: "row \<Rightarrow> nat \<Rightarrow> string option" where
  "getField r i = (if i < length r then r ! i else None)"

definition setField :: "row \<Rightarrow> nat \<Rightarrow> string option \<Rightarrow> row" where
  "setField r i v =
     (if i < length r then r[i := v] else r @ replicate (i - length r) None @ [v])"

text \<open>\<^verbatim>\<open>row.join(',')\<close>: an undefined element is written as the empty string.\<close>

definition joinRow :: "row \<Rightarrow> string" where
  "joinRow r = join CHR '','' (map (\<lambda>f. case f of None \<Rightarrow> [] | Some x \<Rightarrow> x) r)"

definition splitRow :: "string \<Rightarrow> row" where
  "splitRow line = map Some (split CHR '','' line)"

text \<open>The body of the loop over the data rows, for the row before and the current row.\<close>

definition fillDownStep :: "nat \<Rightarrow> nat \<Rightarrow> nat \<Rightarrow> row \<Rightarrow> row \<Rightarrow> row" where
  "fillDownStep runNumberIndex pickupTimeIndex pickupAddressIndex prevRow currentRow =
     (if length prevRow \<le> runNumberIndex \<or> length currentRow \<le> runNumberIndex then currentRow
      else
        (let prevRunNumber = unquote (getField prevRow runNumberIndex);
             currentRunNumber = unquote (getField currentRow runNumberIndex)
         in if currentRunNumber \<noteq> [] \<and> currentRunNumber = prevRunNumber then
              (let currentPickupTime = unquote (getField currentRow pickupTimeIndex);
                   currentPickupAddress = unquote (getField currentRow pickupAddressIndex)
               in if currentPickupTime = [] \<or> currentPickupAddress = [] then
                    (if length prevRow > max pickupTimeIndex pickupAddressIndex then
                       setField
                         (setField currentRow pickupTimeIndex (getField prevRow pickupTimeIndex))
                         pickupAddressIndex (getField prevRow pickupAddressIndex)
                     else currentRow)
                  else currentRow)
            else currentRow))"

text \<open>
  \<^verbatim>\<open>for (let i = 1; i < dataRows.length; i++)\<close>: the rows are updated in place, so the row
  before is read as the earlier iterations left it.
\<close>

function fillDownLoop :: "nat \<Rightarrow> nat \<Rightarrow> nat \<Rightarrow> nat \<Rightarrow> row list \<Rightarrow> row list" where
  "fillDownLoop runNumberIndex pickupTimeIndex pickupAddressIndex i dataRows =
     (if i < length dataRows then
        fillDownLoop runNumberIndex pickupTimeIndex pickupAddressIndex (i + 1)
          (dataRows[i := fillDownStep runNumberIndex pickupTimeIndex pickupAddressIndex
                           (dataRows ! (i - 1)) (dataRows ! i)])
      else dataRows)"
  by pat_completeness auto
termination
  by (relation "measure (\<lambda>(r, t, a, i, dataRows). length dataRows - i)") auto

definition applyFillDownLogic :: "string list \<Rightarrow> string list" where
  "applyFillDownLogic csvLines =
     (if length csvLines \<le> 1 then csvLines
      else
        (let header = map (\<lambda>f. unquote (Some f)) (split CHR '','' (hd csvLines))
         in case (indexOf header ''Run Num'', indexOf header ''Pick Up Time'',
                  indexOf header ''Pickup Address'') of
              (Some runNumberIndex, Some pickupTimeIndex, Some pickupAddressIndex) \<Rightarrow>
                (let dataRows = map splitRow (tl csvLines);
                     processed = fillDownLoop runNumberIndex pickupTimeIndex pickupAddressIndex 1 dataRows
                 in hd csvLines # map joinRow processed)
            | _ \<Rightarrow> csvLines))"

text \<open>
  The column indices the corrector reads off a header line, when all three are there.
\<close>

definition headerIndices :: "string \<Rightarrow> (nat \<times> nat \<times> nat) option" where
  "headerIndices headerLine =
     (let header = map (\<lambda>f. unquote (Some f)) (split CHR '','' headerLine)
      in case (indexOf header ''Run Num'', indexOf header ''Pick Up Time'',
               indexOf header ''Pickup Address'') of
           (Some r, Some t, Some a) \<Rightarrow> Some (r, t, a)
         | _ \<Rightarrow> None)"

section \<open>Merging the chunk results\<close>

text \<open>
  \<^verbatim>\<open>/^"Date","Run Num"/i.test(line)\<close>. Under the \<^verbatim>\<open>i\<close> flag two code units match when their
  canonical forms are equal; the pattern is ASCII, and a code unit from 128 on never has an
  ASCII canonical form, so only the letters a to z need one here.
\<close>

definition canonicalize :: "char \<Rightarrow> char" where
  "canonicalize c =
     (let n = (of_char c :: nat) in if 97 \<le> n \<and> n \<le> 122 then char_of (n - 32) else c)"

definition headerPattern :: string where
  "headerPattern = CHR 0x22 # ''Date'' @ CHR 0x22 # '','' @ CHR 0x22 # ''Run Num'' @ [CHR 0x22]"

definition headerRegexTest :: "string \<Rightarrow> bool" where
  "headerRegexTest line = startsWith (map canonicalize line) (map canonicalize headerPattern)"

text \<open>\<^verbatim>\<open>chunkCsv.split('\n').filter(line => line.trim() !== '')\<close>\<close>

definition chunkLines :: "string \<Rightarrow> string list" where
  "chunkLines chunkCsv = filter (\<lambda>line. trim line \<noteq> []) (split CHR ''\<newline>'' chunkCsv)"

text \<open>
  \<^verbatim>\<open>csvChunkResults.forEach((chunkCsv, index) => ...)\<close>, with \<^verbatim>\<open>finalCsvLines\<close> as the
  accumulator.
\<close>

fun mergeLoop :: "nat \<Rightarrow> string list \<Rightarrow> string list \<Rightarrow> string list" where
  "mergeLoop index finalCsvLines [] = finalCsvLines"
| "mergeLoop index finalCsvLines (chunkCsv # rest) =
     (let lines = chunkLines chunkCsv
      in if lines = [] then mergeLoop (index + 1) finalCsvLines rest
         else if index = 0 then mergeLoop (index + 1) (finalCsvLines @ lines) rest
         else if headerRegexTest (hd lines) then mergeLoop (index + 1) (finalCsvLines @ tl lines) rest
         else mergeLoop (index + 1) (finalCsvLines @ lines) rest)"

definition mergeChunkResults :: "string list \<Rightarrow> string list" where
  "mergeChunkResults csvChunkResults = mergeLoop 0 [] csvChunkResults"

section \<open>The pipeline: \<^verbatim>\<open>convertPdfToCsv\<close>\<close>

text \<open>
  The document enters as its page count. A chunk is the list of the page indices copied
  into the sub-document, and \<open>ai pageIndices k\<close> is the outcome of the request of attempt
  \<open>k\<close> for that chunk. The loop state is \<open>i\<close>, \<^verbatim>\<open>csvChunkResults\<close> and the list of the
  chunks handed to \<^verbatim>\<open>callGeminiWithRetry\<close> so far. An error thrown by the client leaves the
  loop and the function.
\<close>

function extractLoop ::
  "(nat list \<Rightarrow> nat \<Rightarrow> api_result) \<Rightarrow> nat \<Rightarrow> nat \<Rightarrow> string list \<Rightarrow> nat list list
     \<Rightarrow> (error + string list) \<times> nat list list"
where
  "extractLoop ai pageCount i csvChunkResults calls =
     (if i < pageCount then
        (let startPage = i;
             endPage = min (i + CHUNK_SIZE) pageCount;
             pageIndices = map (\<lambda>k. startPage + k) [0..<endPage - startPage]
         in case fst (callGeminiWithRetry (ai pageIndices)) of
              Inl e \<Rightarrow> (Inl e, calls @ [pageIndices])
            | Inr chunkCsv \<Rightarrow>
                extractLoop ai pageCount (i + CHUNK_SIZE)
                  (if chunkCsv \<noteq> [] then csvChunkResults @ [chunkCsv] else csvChunkResults)
                  (calls @ [pageIndices]))
      else (Inr csvChunkResults, calls))"
  by pat_completeness auto
termination
  by (relation "measure (\<lambda>(ai, pageCount, i, csvChunkResults, calls). pageCount - i)")
    (auto simp: CHUNK_SIZE_def)

definition convertPdfToCsv ::
  "string option \<Rightarrow> nat \<Rightarrow> (nat list \<Rightarrow> nat \<Rightarrow> api_result) \<Rightarrow> (error + string) \<times> nat list list"
where
  "convertPdfToCsv apiKey pageCount ai =
     (if apiKey = None \<or> apiKey = Some [] then (Inl ConfigurationError, [])
      else if pageCount = 0 then (Inl InvalidDocumentError, [])
      else
        (case extractLoop ai pageCount 0 [] [] of
           (Inl e, calls) \<Rightarrow> (Inl e, calls)
         | (Inr csvChunkResults, calls) \<Rightarrow>
             (let finalCsvLines = mergeChunkResults csvChunkResults
              in if length finalCsvLines < 2 then (Inl EmptyResultError, calls)
                 else (Inr (join CHR ''\<newline>'' (applyFillDownLogic finalCsvLines)), calls))))"

section \<open>Notions used to state the properties\<close>

text \<open>The number of requests among the events of one call of the client.\<close>

fun isRequest :: "event \<Rightarrow> bool" where
  "isRequest (Request k) = True"
| "isRequest (Wait d) = False"

definition attempts :: "event list \<Rightarrow> nat" where
  "attempts evs = length (filter isRequest evs)"

text \<open>
  Two services that answer every request with the same fenced response; the response of the
  second ends with a newline after the closing fence.
\<close>

definition fencedService :: "nat \<Rightarrow> api_result" where
  "fencedService k = Response (Some ''```csv\<newline>a,b\<newline>```'')"

definition fencedNewlineService :: "nat \<Rightarrow> api_result" where
  "fencedNewlineService k = Response (Some ''```csv\<newline>a,b\<newline>```\<newline>'')"

text \<open>
  The merge as the specification words it. A line is blank when it is whitespace only; the
  header pattern is matched as a prefix, letter case ignored, here by comparing the
  lower-cased texts. The first fragment keeps all its lines; a later fragment loses its
  first line when that line matches the header pattern.
\<close>

definition blankLine :: "string \<Rightarrow> bool" where
  "blankLine line = list_all isWhiteSpace line"

definition fragmentLines :: "string \<Rightarrow> string list" where
  "fragmentLines fragment = filter (\<lambda>line. \<not> blankLine line) (split CHR ''\<newline>'' fragment)"

definition matchesHeaderPattern :: "string \<Rightarrow> bool" where
  "matchesHeaderPattern line =
     (length headerPattern \<le> length line
      \<and> toLowerCase (take (length headerPattern) line) = toLowerCase headerPattern)"

definition laterFragmentLines :: "string \<Rightarrow> string list" where
  "laterFragmentLines fragment =
     (case fragmentLines fragment of
        [] \<Rightarrow> []
      | first # others \<Rightarrow> if matchesHeaderPattern first then others else first # others)"

fun mergeSpec :: "string list \<Rightarrow> string list" where
  "mergeSpec [] = []"
| "mergeSpec (fragment # later) = fragmentLines fragment @ concat (map laterFragmentLines later)"

text \<open>
  Two fragments that both start with the header line, and one fragment whose second line
  is a header line.
\<close>

definition specFragments :: "string list" where
  "specFragments = [headerPattern @ ''\<newline>A,1\<newline>'', headerPattern @ ''\<newline>B,2\<newline>'']"

definition headerlessFragment :: string where
  "headerlessFragment = ''A,1\<newline>'' @ headerPattern @ ''\<newline>B,2''"

text \<open>
  The chunking as the specification words it: chunk \<open>i\<close> holds the pages from \<open>i * K\<close> up
  to, and without, \<open>min ((i + 1) * K) N\<close>, and there are \<open>ceil (N / K)\<close> chunks.
\<close>

definition chunkPages :: "nat \<Rightarrow> nat \<Rightarrow> nat list" where
  "chunkPages pageCount i = [i * CHUNK_SIZE ..< min ((i + 1) * CHUNK_SIZE) pageCount]"

definition chunkCount :: "nat \<Rightarrow> nat" where
  "chunkCount pageCount = (pageCount + CHUNK_SIZE - 1) div CHUNK_SIZE"

text \<open>The result of the extraction client for one chunk.\<close>

definition extractChunk :: "(nat list \<Rightarrow> nat \<Rightarrow> api_result) \<Rightarrow> nat list \<Rightarrow> error + string" where
  "extractChunk ai pageIndices = fst (callGeminiWithRetry (ai pageIndices))"

text \<open>
  Services for the examples: one whose responses carry no text, and one whose response has
  no text for the chunk with page 0 and a header and a row for every other chunk.
\<close>

definition silentService :: "nat list \<Rightarrow> nat \<Rightarrow> api_result" where
  "silentService pageIndices attempt = Response None"

text \<open>The extraction loop seen as a traversal of a list of chunks.\<close>

fun extractAll ::
  "(nat list \<Rightarrow> nat \<Rightarrow> api_result) \<Rightarrow> nat list list \<Rightarrow> string list \<Rightarrow> nat list list
     \<Rightarrow> (error + string list) \<times> nat list list"
where
  "extractAll ai [] csvChunkResults calls = (Inr csvChunkResults, calls)"
| "extractAll ai (chunk # chunks) csvChunkResults calls =
     (case extractChunk ai chunk of
        Inl e \<Rightarrow> (Inl e, calls @ [chunk])
      | Inr chunkCsv \<Rightarrow>
          extractAll ai chunks
            (if chunkCsv \<noteq> [] then csvChunkResults @ [chunkCsv] else csvChunkResults)
            (calls @ [chunk]))"

definition allChunks :: "nat \<Rightarrow> nat list list" where
  "allChunks pageCount = map (chunkPages pageCount) [0..<chunkCount pageCount]"



text \<open>
  The loop over the data rows seen as a traversal that carries the row before as the loop
  has left it.
\<close>

fun fillFrom :: "nat \<Rightarrow> nat \<Rightarrow> nat \<Rightarrow> row \<Rightarrow> row list \<Rightarrow> row list" where
  "fillFrom r t a prevRow [] = []"
| "fillFrom r t a prevRow (currentRow # rest) =
     fillDownStep r t a prevRow currentRow
       # fillFrom r t a (fillDownStep r t a prevRow currentRow) rest"

definition fillRows :: "nat \<Rightarrow> nat \<Rightarrow> nat \<Rightarrow> row list \<Rightarrow> row list" where
  "fillRows r t a dataRows =
     (case dataRows of [] \<Rightarrow> [] | first # rest \<Rightarrow> first # fillFrom r t a first rest)"

text \<open>
  What a slot of a row is written as; a row with every slot replaced by its text; and the
  rows that come from splitting a line at the commas: at least one field, no comma inside
  a field.
\<close>

definition fieldText :: "string option \<Rightarrow> string" where
  "fieldText f = (case f of None \<Rightarrow> [] | Some x \<Rightarrow> x)"

definition normRow :: "row \<Rightarrow> row" where
  "normRow r = map (\<lambda>f. Some (fieldText f)) r"

definition wfRow :: "row \<Rightarrow> bool" where
  "wfRow r = (r \<noteq> [] \<and> list_all (\<lambda>f. CHR '','' \<notin> set (fieldText f)) r)"

text \<open>
  The header and rows of the example in the specification, and the same header and first
  row followed by a row that ends after the run number.
\<close>

definition specLines :: "string list" where
  "specLines =
     [''Date,Run Num,Pick Up Time,Customer,Customer ID,Pickup Address,Dropoff Address,Dropoff Time,Comment,Mileage'',
      ''2025-01-01,5,09:00,Alice,1,123 Main,456 Oak,09:30,,10'',
      ''2025-01-01,5,,Bob,2,,789 Elm,09:45,,10'']"

definition shortRowLines :: "string list" where
  "shortRowLines = [specLines ! 0, specLines ! 1, ''2025-01-01,5'']"

section \<open>Properties of the extraction client\<close>

text \<open>
  The loop runs at most three times, so the outcome of a call is decided by the first
  three outcomes of the service.
\<close>

lemma retry_unrolled:
  "callGeminiWithRetry gen =
     (case gen 0 of
        Response t \<Rightarrow> (Inr (cleanResponse t), [Request 0])
      | Failure m0 \<Rightarrow>
          if \<not> isTransient m0 then (Inl ExtractionFailedError, [Request 0])
          else (case gen 1 of
             Response t \<Rightarrow> (Inr (cleanResponse t), [Request 0, Wait 1000, Request 1])
           | Failure m1 \<Rightarrow>
               if \<not> isTransient m1
               then (Inl ExtractionFailedError, [Request 0, Wait 1000, Request 1])
               else (case gen 2 of
                  Response t \<Rightarrow>
                    (Inr (cleanResponse t),
                     [Request 0, Wait 1000, Request 1, Wait 2000, Request 2])
                | Failure m2 \<Rightarrow>
                    (Inl (if isTransient m2 then ServiceBusyError else ExtractionFailedError),
                     [Request 0, Wait 1000, Request 1, Wait 2000, Request 2]))))"
  by (auto simp: callGeminiWithRetry_def MAX_RETRIES_def INITIAL_RETRY_DELAY_MS_def
      finalError_def numeral_2_eq_2 split: api_result.splits)

lemma retry_requests_bound: "attempts (snd (callGeminiWithRetry gen)) \<le> MAX_RETRIES"
  by (simp add: retry_unrolled attempts_def MAX_RETRIES_def split: api_result.splits)

lemma retry_request_index: "Request k \<in> set (snd (callGeminiWithRetry gen)) \<Longrightarrow> k < 3"
  by (auto simp: retry_unrolled split: api_result.splits if_splits)

lemma retry_after_transient:
  assumes "Request k \<in> set (snd (callGeminiWithRetry gen))"
    and "gen k = Failure m" and "isTransient m" and "k < 2"
  shows "\<exists>pre post. snd (callGeminiWithRetry gen) =
           pre @ [Request k, Wait (INITIAL_RETRY_DELAY_MS * 2 ^ k), Request (k + 1)] @ post"
proof -
  from assms(4) consider "k = 0" | "k = 1" by linarith
  then show ?thesis
  proof cases
    case 1
    with assms have "\<exists>post. snd (callGeminiWithRetry gen) =
        [] @ [Request k, Wait (INITIAL_RETRY_DELAY_MS * 2 ^ k), Request (k + 1)] @ post"
      by (auto simp: retry_unrolled INITIAL_RETRY_DELAY_MS_def split: api_result.splits if_splits)
    then show ?thesis by blast
  next
    case 2
    with assms have "\<exists>post. snd (callGeminiWithRetry gen) =
        [Request 0, Wait 1000]
          @ [Request k, Wait (INITIAL_RETRY_DELAY_MS * 2 ^ k), Request (k + 1)] @ post"
      by (auto simp: retry_unrolled INITIAL_RETRY_DELAY_MS_def split: api_result.splits if_splits)
    then show ?thesis by blast
  qed
qed

lemma retry_after_other:
  assumes "Request k \<in> set (snd (callGeminiWithRetry gen))"
    and "gen k = Failure m" and "\<not> isTransient m"
  shows "\<exists>pre. snd (callGeminiWithRetry gen) = pre @ [Request k]"
proof -
  from assms(1) have "k < 3" by (rule retry_request_index)
  then consider "k = 0" | "k = 1" | "k = 2" by linarith
  then show ?thesis
  proof cases
    case 1
    with assms have "snd (callGeminiWithRetry gen) = [] @ [Request k]"
      by (auto simp: retry_unrolled split: api_result.splits if_splits)
    then show ?thesis by blast
  next
    case 2
    with assms have "snd (callGeminiWithRetry gen) = [Request 0, Wait 1000] @ [Request k]"
      by (auto simp: retry_unrolled split: api_result.splits if_splits)
    then show ?thesis by blast
  next
    case 3
    with assms have "snd (callGeminiWithRetry gen) =
        [Request 0, Wait 1000, Request 1, Wait 2000] @ [Request k]"
      by (auto simp: retry_unrolled split: api_result.splits if_splits)
    then show ?thesis by blast
  qed
qed

lemma transient_example: "isTransient ''500 Internal Server Error''"
  by code_simp

lemma other_example: "\<not> isTransient ''API key not valid''"
  by code_simp

text \<open>
  Claim C2. The client sends at most three requests for a chunk. After the request of attempt
  \<open>k\<close> (counted from 0) fails with a message that contains "internal" or "500" in any
  letter case, and another attempt is left (\<open>k < 2\<close>), it sleeps \<open>1000 * 2 ^ k\<close> ms and
  sends the request of attempt \<open>k + 1\<close>; after a request fails with any other message,
  that request is the last event. Two transient failures followed by a success give the
  three requests with sleeps of 1000 and 2000 ms between them and the cleaned text of the
  third response; another failure on the first attempt gives one request.
\<close>

theorem callGeminiWithRetry_retry_policy:
  "attempts (snd (callGeminiWithRetry gen)) \<le> 3
   \<and> (\<forall>k m. Request k \<in> set (snd (callGeminiWithRetry gen)) \<and> gen k = Failure m
          \<and> isTransient m \<and> k < 2
        \<longrightarrow> (\<exists>pre post. snd (callGeminiWithRetry gen) =
               pre @ [Request k, Wait (1000 * 2 ^ k), Request (k + 1)] @ post))
   \<and> (\<forall>k m. Request k \<in> set (snd (callGeminiWithRetry gen)) \<and> gen k = Failure m
          \<and> \<not> isTransient m
        \<longrightarrow> (\<exists>pre. snd (callGeminiWithRetry gen) = pre @ [Request k]))
   \<and> (\<forall>m0 m1 t. gen 0 = Failure m0 \<and> isTransient m0 \<and> gen 1 = Failure m1 \<and> isTransient m1
          \<and> gen 2 = Response t
        \<longrightarrow> callGeminiWithRetry gen =
             (Inr (cleanResponse t), [Request 0, Wait 1000, Request 1, Wait 2000, Request 2])
           \<and> attempts (snd (callGeminiWithRetry gen)) = 3)
   \<and> (\<forall>m. gen 0 = Failure m \<and> \<not> isTransient m
        \<longrightarrow> callGeminiWithRetry gen = (Inl ExtractionFailedError, [Request 0])
           \<and> attempts (snd (callGeminiWithRetry gen)) = 1)"
proof (intro conjI allI impI)
  show "attempts (snd (callGeminiWithRetry gen)) \<le> 3"
    using retry_requests_bound [of gen] by (simp add: MAX_RETRIES_def)
next
  fix k m
  assume "Request k \<in> set (snd (callGeminiWithRetry gen)) \<and> gen k = Failure m
    \<and> isTransient m \<and> k < 2"
  then show "\<exists>pre post. snd (callGeminiWithRetry gen) =
      pre @ [Request k, Wait (1000 * 2 ^ k), Request (k + 1)] @ post"
    using retry_after_transient [of k gen m] by (simp add: INITIAL_RETRY_DELAY_MS_def)
next
  fix k m
  assume "Request k \<in> set (snd (callGeminiWithRetry gen)) \<and> gen k = Failure m
    \<and> \<not> isTransient m"
  then show "\<exists>pre. snd (callGeminiWithRetry gen) = pre @ [Request k]"
    using retry_after_other [of k gen m] by simp
next
  fix m0 m1 t
  assume a: "gen 0 = Failure m0 \<and> isTransient m0 \<and> gen 1 = Failure m1 \<and> isTransient m1
    \<and> gen 2 = Response t"
  then show "callGeminiWithRetry gen =
      (Inr (cleanResponse t), [Request 0, Wait 1000, Request 1, Wait 2000, Request 2])"
    by (simp add: retry_unrolled)
  from a show "attempts (snd (callGeminiWithRetry gen)) = 3"
    by (simp add: retry_unrolled attempts_def)
next
  fix m
  assume a: "gen 0 = Failure m \<and> \<not> isTransient m"
  then show "callGeminiWithRetry gen = (Inl ExtractionFailedError, [Request 0])"
    by (simp add: retry_unrolled)
  from a show "attempts (snd (callGeminiWithRetry gen)) = 1"
    by (simp add: retry_unrolled attempts_def)
qed

text \<open>
  The policy at a service that fails twice with a server error and then answers with a
  fenced response.
\<close>

theorem callGeminiWithRetry_retry_policy_witness:
  "callGeminiWithRetry
     (\<lambda>k. if k < 2 then Failure ''500 Internal Server Error'' else Response (Some ''```csv\<newline>a,b```''))
   = (Inr ''a,b'', [Request 0, Wait 1000, Request 1, Wait 2000, Request 2])
   \<and> callGeminiWithRetry (\<lambda>k. Failure ''API key not valid'')
     = (Inl ExtractionFailedError, [Request 0])"
proof -
  have c: "cleanResponse (Some ''```csv\<newline>a,b```'') = ''a,b''"
    by code_simp
  show ?thesis
    using callGeminiWithRetry_retry_policy
      [of "\<lambda>k. if k < 2 then Failure ''500 Internal Server Error''
                else Response (Some ''```csv\<newline>a,b```'')"]
      callGeminiWithRetry_retry_policy [of "\<lambda>k. Failure ''API key not valid''"]
      transient_example other_example c
    by simp
qed



section \<open>Properties of the response clean-up\<close>

lemma startsWith_iff: "startsWith s p \<longleftrightarrow> (\<exists>r. s = p @ r)"
proof
  assume "startsWith s p"
  then have "s = p @ drop (length p) s"
    unfolding startsWith_def by (metis append_take_drop_id)
  then show "\<exists>r. s = p @ r" ..
next
  assume "\<exists>r. s = p @ r"
  then show "startsWith s p" unfolding startsWith_def by auto
qed

lemma startsWith_drop: "startsWith s p \<Longrightarrow> s = p @ drop (length p) s"
  unfolding startsWith_def by (metis append_take_drop_id)

lemma endsWith_iff: "endsWith s p \<longleftrightarrow> (\<exists>r. s = r @ p)"
proof
  assume "endsWith s p"
  then have "s = take (length s - length p) s @ p"
    unfolding endsWith_def by (metis append_take_drop_id)
  then show "\<exists>r. s = r @ p" ..
next
  assume "\<exists>r. s = r @ p"
  then show "endsWith s p" unfolding endsWith_def by auto
qed

lemma endsWith_take: "endsWith s p \<Longrightarrow> s = take (length s - length p) s @ p"
  unfolding endsWith_def by (metis append_take_drop_id)

lemma stripLeadingFence_decomp:
  "\<exists>lead w. s = lead @ w @ stripLeadingFence s
     \<and> (lead = [] \<or> lead = ''```'' \<or> lead = ''```csv'')
     \<and> (w = [] \<or> w = ''\<newline>'')
     \<and> (startsWith s ''```'' \<longrightarrow> lead \<noteq> [])
     \<and> (startsWith s ''```csv'' \<longrightarrow> lead = ''```csv'')"
proof (cases "startsWith s ''```''")
  case False
  then have "stripLeadingFence s = s" by (simp add: stripLeadingFence_def)
  moreover from False have "\<not> startsWith s ''```csv''"
    by (auto simp: startsWith_iff)
  ultimately show ?thesis using False by auto
next
  case True
  define r1 where "r1 = drop 3 s"
  define r2 where "r2 = (if startsWith r1 ''csv'' then drop 3 r1 else r1)"
  define r3 where "r3 = (if startsWith r2 ''\<newline>'' then drop 1 r2 else r2)"
  have s1: "s = ''```'' @ r1" using startsWith_drop [OF True] by (simp add: r1_def numeral_3_eq_3)
  have res: "stripLeadingFence s = r3"
    using True by (simp add: stripLeadingFence_def r1_def r2_def r3_def Let_def)
  have e2: "\<exists>tag. r1 = tag @ r2 \<and> (tag = [] \<or> tag = ''csv'') \<and> (startsWith r1 ''csv'' \<longrightarrow> tag = ''csv'')"
  proof (cases "startsWith r1 ''csv''")
    case True
    then have "r1 = ''csv'' @ r2" using startsWith_drop [OF True] by (simp add: r2_def numeral_3_eq_3)
    then show ?thesis using True by blast
  next
    case False
    then show ?thesis by (simp add: r2_def)
  qed
  have e3: "\<exists>w. r2 = w @ r3 \<and> (w = [] \<or> w = ''\<newline>'')"
  proof (cases "startsWith r2 ''\<newline>''")
    case True
    then have "r2 = ''\<newline>'' @ r3" using startsWith_drop [OF True] by (simp add: r3_def)
    then show ?thesis by blast
  next
    case False
    then show ?thesis by (simp add: r3_def)
  qed
  from e2 obtain tag where tag: "r1 = tag @ r2" "tag = [] \<or> tag = ''csv''"
    "startsWith r1 ''csv'' \<longrightarrow> tag = ''csv''" by blast
  from e3 obtain w where w: "r2 = w @ r3" "w = [] \<or> w = ''\<newline>''" by blast
  have csv: "startsWith s ''```csv'' \<longrightarrow> startsWith r1 ''csv''"
    using s1 by (auto simp: startsWith_iff)
  have "s = (''```'' @ tag) @ w @ stripLeadingFence s"
    using s1 tag(1) w(1) res by simp
  moreover have "''```'' @ tag = ''```'' \<or> ''```'' @ tag = ''```csv''" using tag(2) by auto
  moreover have "''```'' @ tag \<noteq> []" by simp
  moreover have "startsWith s ''```csv'' \<longrightarrow> ''```'' @ tag = ''```csv''"
    using csv tag(3) by simp
  ultimately show ?thesis using w(2) by blast
qed

lemma stripTrailingFence_decomp:
  "\<exists>trail. s = stripTrailingFence s @ trail \<and> (trail = [] \<or> trail = ''```'')
     \<and> (endsWith s ''```'' \<longrightarrow> trail \<noteq> [])"
proof (cases "endsWith s ''```''")
  case True
  then show ?thesis using endsWith_take [OF True] by (auto simp: stripTrailingFence_def numeral_3_eq_3)
next
  case False
  then show ?thesis by (simp add: stripTrailingFence_def)
qed

lemma trim_decomp:
  "\<exists>a b. s = a @ trim s @ b \<and> list_all isWhiteSpace a \<and> list_all isWhiteSpace b"
proof -
  let ?r = "dropWhile isWhiteSpace s"
  let ?t = "takeWhile isWhiteSpace (rev ?r)"
  have 1: "s = takeWhile isWhiteSpace s @ ?r" by simp
  have "?r = rev (?t @ dropWhile isWhiteSpace (rev ?r))"
    by (simp only: takeWhile_dropWhile_id rev_rev_ident)
  then have 2: "?r = trim s @ rev ?t"
    by (simp only: rev_append trim_def)
  have 3: "list_all isWhiteSpace (takeWhile isWhiteSpace s)"
    unfolding list_all_iff using set_takeWhileD by fast
  have 4: "list_all isWhiteSpace (rev ?t)"
    unfolding list_all_iff set_rev using set_takeWhileD by fast
  from 1 2 have "s = takeWhile isWhiteSpace s @ trim s @ rev ?t"
    by simp
  with 3 4 show ?thesis by blast
qed


lemma suffix_after_foreign_prefix:
  assumes "q @ f = pre @ r" and "set pre \<inter> set f = {}"
  shows "\<exists>q'. r = q' @ f"
proof -
  from assms(1) obtain us where
    "(q = pre @ us \<and> us @ f = r) \<or> (q @ us = pre \<and> f = us @ r)"
    unfolding append_eq_append_conv2 by blast
  then show ?thesis
  proof
    assume "q = pre @ us \<and> us @ f = r"
    then show ?thesis by blast
  next
    assume a: "q @ us = pre \<and> f = us @ r"
    show ?thesis
    proof (cases us)
      case Nil
      with a show ?thesis by simp
    next
      case (Cons u us')
      with a have "u \<in> set pre" "u \<in> set f" by auto
      with assms(2) show ?thesis by blast
    qed
  qed
qed

lemma stripLeadingFence_keeps_trailing:
  assumes "endsWith s ''```''" and "startsWith s ''```'' \<Longrightarrow> 6 \<le> length s"
  shows "endsWith (stripLeadingFence s) ''```''"
proof (cases "startsWith s ''```''")
  case False
  with assms(1) show ?thesis by (simp add: stripLeadingFence_def)
next
  case True
  define r1 where "r1 = drop 3 s"
  define r2 where "r2 = (if startsWith r1 ''csv'' then drop 3 r1 else r1)"
  define r3 where "r3 = (if startsWith r2 ''\<newline>'' then drop 1 r2 else r2)"
  have res: "stripLeadingFence s = r3"
    using True by (simp add: stripLeadingFence_def r1_def r2_def r3_def Let_def)
  from assms(1) obtain q where q: "s = q @ ''```''" unfolding endsWith_iff by blast
  with assms(2) [OF True] have "3 \<le> length q" by simp
  with q have e1: "r1 = drop 3 q @ ''```''" by (simp add: r1_def)
  have e2: "\<exists>q2. r2 = q2 @ ''```''"
  proof (cases "startsWith r1 ''csv''")
    case True
    then have "r1 = ''csv'' @ r2" using startsWith_drop [OF True] by (simp add: r2_def numeral_3_eq_3)
    with e1 have "drop 3 q @ ''```'' = ''csv'' @ r2" by simp
    then show ?thesis by (rule suffix_after_foreign_prefix) simp
  next
    case False
    with e1 show ?thesis by (simp add: r2_def)
  qed
  then obtain q2 where q2: "r2 = q2 @ ''```''" ..
  have "\<exists>q3. r3 = q3 @ ''```''"
  proof (cases "startsWith r2 ''\<newline>''")
    case True
    then have "r2 = ''\<newline>'' @ r3" using startsWith_drop [OF True] by (simp add: r3_def)
    with q2 have "q2 @ ''```'' = ''\<newline>'' @ r3" by simp
    then show ?thesis by (rule suffix_after_foreign_prefix) simp
  next
    case False
    with q2 show ?thesis by (simp add: r3_def)
  qed
  then show ?thesis unfolding res endsWith_iff .
qed


text \<open>
  What the clean-up does do: the response is \<open>lead @ ws1 @ cleaned @ ws2 @ trail\<close>, with a
  leading fence taken off when the response starts with one and a trailing fence taken off
  when the response ends with one.
\<close>

lemma cleanResponse_decomp:
  "\<exists>lead ws1 ws2 trail.
      responseText t = lead @ ws1 @ cleanResponse t @ ws2 @ trail
    \<and> (lead = [] \<or> lead = ''```'' \<or> lead = ''```csv'')
    \<and> (trail = [] \<or> trail = ''```'')
    \<and> list_all isWhiteSpace ws1 \<and> list_all isWhiteSpace ws2
    \<and> (startsWith (responseText t) ''```'' \<longrightarrow> lead \<noteq> [])
    \<and> (startsWith (responseText t) ''```csv'' \<longrightarrow> lead = ''```csv'')
    \<and> (endsWith (responseText t) ''```''
          \<and> (startsWith (responseText t) ''```'' \<longrightarrow> 6 \<le> length (responseText t))
        \<longrightarrow> trail = ''```'')"
proof -
  let ?s = "responseText t"
  let ?s1 = "stripLeadingFence ?s"
  let ?s2 = "stripTrailingFence ?s1"
  have c: "cleanResponse t = trim ?s2" by (simp add: cleanResponse_def responseText_def)
  from stripLeadingFence_decomp [of ?s] obtain lead w where
    l: "?s = lead @ w @ ?s1" "lead = [] \<or> lead = ''```'' \<or> lead = ''```csv''"
       "w = [] \<or> w = ''\<newline>''" "startsWith ?s ''```'' \<longrightarrow> lead \<noteq> []"
       "startsWith ?s ''```csv'' \<longrightarrow> lead = ''```csv''" by blast
  from stripTrailingFence_decomp [of ?s1] obtain trail where
    t: "?s1 = ?s2 @ trail" "trail = [] \<or> trail = ''```''" "endsWith ?s1 ''```'' \<longrightarrow> trail \<noteq> []"
    by blast
  from trim_decomp [of ?s2] obtain a b where
    ab: "?s2 = a @ trim ?s2 @ b" "list_all isWhiteSpace a" "list_all isWhiteSpace b" by blast
  have w: "list_all isWhiteSpace w" using l(3) by (auto simp: isWhiteSpace_def)
  have "?s = lead @ w @ (a @ trim ?s2 @ b) @ trail"
    using l(1) t(1) ab(1) by metis
  then have 1: "?s = lead @ (w @ a) @ cleanResponse t @ b @ trail" by (simp add: c)
  have 2: "list_all isWhiteSpace (w @ a)" using w ab(2) by simp
  have 3: "endsWith ?s ''```'' \<and> (startsWith ?s ''```'' \<longrightarrow> 6 \<le> length ?s)
      \<longrightarrow> trail = ''```''"
    using stripLeadingFence_keeps_trailing [of ?s] t(2,3) by blast
  from 1 2 3 l(2,4,5) t(2) ab(3) show ?thesis by blast
qed

text \<open>
  Claim C7 does not hold of the code. The closing fence is looked for before the whitespace
  is stripped, so it is removed only when the three backticks are the very last code units
  of the raw response. For a response with a newline after the closing fence the client
  returns the text with the fence still at its end, where the same response without that
  newline is returned without any fence.
\<close>

theorem trailing_fence_kept:
  "fst (callGeminiWithRetry fencedService) = Inr ''a,b''
   \<and> fst (callGeminiWithRetry fencedNewlineService) = Inr ''a,b\<newline>```''
   \<and> endsWith ''a,b\<newline>```'' ''```''"
proof -
  have 1: "cleanResponse (Some ''```csv\<newline>a,b\<newline>```'') = ''a,b''"
    by code_simp
  have 2: "cleanResponse (Some ''```csv\<newline>a,b\<newline>```\<newline>'') = ''a,b\<newline>```''"
    by code_simp
  have 3: "endsWith ''a,b\<newline>```'' ''```''" by code_simp
  show ?thesis
    by (simp add: retry_unrolled fencedService_def fencedNewlineService_def 1 2 3)
qed

section \<open>Properties of the merge\<close>

lemma trim_empty_iff: "trim s = [] \<longleftrightarrow> list_all isWhiteSpace s"
proof -
  let ?r = "dropWhile isWhiteSpace s"
  have "trim s = [] \<longleftrightarrow> dropWhile isWhiteSpace (rev ?r) = []"
    by (simp only: trim_def rev_is_Nil_conv)
  also have "\<dots> \<longleftrightarrow> (\<forall>x\<in>set ?r. isWhiteSpace x)"
    by (simp only: dropWhile_eq_Nil_conv set_rev)
  also have "\<dots> \<longleftrightarrow> ?r = []"
  proof
    assume a: "\<forall>x\<in>set ?r. isWhiteSpace x"
    show "?r = []"
    proof (rule ccontr)
      assume n: "?r \<noteq> []"
      then have "\<not> isWhiteSpace (hd ?r)" by (rule hd_dropWhile)
      moreover from n have "hd ?r \<in> set ?r" by (rule hd_in_set)
      ultimately show False using a by blast
    qed
  next
    assume "?r = []"
    then show "\<forall>x\<in>set ?r. isWhiteSpace x" by (simp only: set_simps ball_empty)
  qed
  also have "\<dots> \<longleftrightarrow> list_all isWhiteSpace s"
    by (simp only: dropWhile_eq_Nil_conv list_all_iff)
  finally show ?thesis .
qed

lemma chunkLines_fragmentLines: "chunkLines c = fragmentLines c"
  by (simp add: chunkLines_def fragmentLines_def blankLine_def trim_empty_iff)

lemma of_char_canonicalize:
  "(of_char (canonicalize c) :: nat) =
     (if 97 \<le> (of_char c :: nat) \<and> (of_char c :: nat) \<le> 122 then of_char c - 32 else of_char c)"
  using nat_of_char_less_256 [of c] by (auto simp: canonicalize_def Let_def)

lemma of_char_lowerChar:
  "(of_char (lowerChar c) :: nat) =
     (if (65 \<le> (of_char c :: nat) \<and> (of_char c :: nat) \<le> 90)
         \<or> (192 \<le> (of_char c :: nat) \<and> (of_char c :: nat) \<le> 222 \<and> (of_char c :: nat) \<noteq> 215)
      then of_char c + 32 else of_char c)"
  by (simp add: lowerChar_def Let_def)

lemma case_folding_arith:
  fixes n m :: nat
  assumes "m < 128"
  shows "((if 97 \<le> n \<and> n \<le> 122 then n - 32 else n) = (if 97 \<le> m \<and> m \<le> 122 then m - 32 else m))
     \<longleftrightarrow> ((if (65 \<le> n \<and> n \<le> 90) \<or> (192 \<le> n \<and> n \<le> 222 \<and> n \<noteq> 215) then n + 32 else n)
          = (if (65 \<le> m \<and> m \<le> 90) \<or> (192 \<le> m \<and> m \<le> 222 \<and> m \<noteq> 215) then m + 32 else m))"
  using assms by (auto split: if_splits)

lemma canonicalize_lowerChar:
  assumes "(of_char p :: nat) < 128"
  shows "canonicalize c = canonicalize p \<longleftrightarrow> lowerChar c = lowerChar p"
proof -
  have "canonicalize c = canonicalize p
      \<longleftrightarrow> (of_char (canonicalize c) :: nat) = of_char (canonicalize p)"
    by (simp only: of_char_eq_iff)
  moreover have "lowerChar c = lowerChar p
      \<longleftrightarrow> (of_char (lowerChar c) :: nat) = of_char (lowerChar p)"
    by (simp only: of_char_eq_iff)
  moreover have "(of_char (canonicalize c) :: nat) = of_char (canonicalize p)
      \<longleftrightarrow> (of_char (lowerChar c) :: nat) = of_char (lowerChar p)"
    unfolding of_char_canonicalize of_char_lowerChar using assms by (rule case_folding_arith)
  ultimately show ?thesis by blast
qed

lemma headerPattern_ascii: "\<forall>p\<in>set headerPattern. (of_char p :: nat) < 128"
  by (simp add: headerPattern_def)

lemma map_eq_on_ascii:
  assumes "\<forall>p\<in>set ps. (of_char p :: nat) < 128" and "length cs = length ps"
  shows "map canonicalize cs = map canonicalize ps \<longleftrightarrow> map lowerChar cs = map lowerChar ps"
  using assms(2,1)
proof (induction cs ps rule: list_induct2)
  case Nil
  show ?case by simp
next
  case (Cons c cs p ps)
  then show ?case using canonicalize_lowerChar [of p c] by simp
qed

lemma headerRegexTest_matchesHeaderPattern: "headerRegexTest line = matchesHeaderPattern line"
proof (cases "length headerPattern \<le> length line")
  case True
  then have l: "length (take (length headerPattern) line) = length headerPattern" by simp
  have "headerRegexTest line \<longleftrightarrow>
      map canonicalize (take (length headerPattern) line) = map canonicalize headerPattern"
    by (simp add: headerRegexTest_def startsWith_def take_map)
  also have "\<dots> \<longleftrightarrow> map lowerChar (take (length headerPattern) line) = map lowerChar headerPattern"
    using headerPattern_ascii l by (rule map_eq_on_ascii)
  finally show ?thesis using True by (simp add: matchesHeaderPattern_def toLowerCase_def)
next
  case False
  have "\<not> headerRegexTest line"
  proof
    assume "headerRegexTest line"
    then have "take (length headerPattern) (map canonicalize line) = map canonicalize headerPattern"
      by (simp add: headerRegexTest_def startsWith_def)
    then have "length (take (length headerPattern) (map canonicalize line))
        = length (map canonicalize headerPattern)"
      by (rule arg_cong)
    with False show False by simp
  qed
  with False show ?thesis by (simp add: matchesHeaderPattern_def)
qed

lemma mergeLoop_later:
  "mergeLoop (Suc n) acc fs = acc @ concat (map laterFragmentLines fs)"
proof (induction fs arbitrary: n acc)
  case Nil
  show ?case by simp
next
  case (Cons f fs)
  show ?case
    by (cases "fragmentLines f")
      (simp_all add: Cons.IH Let_def chunkLines_fragmentLines laterFragmentLines_def
        headerRegexTest_matchesHeaderPattern)
qed

lemma mergeChunkResults_mergeSpec: "mergeChunkResults fragments = mergeSpec fragments"
proof (cases fragments)
  case Nil
  then show ?thesis by (simp add: mergeChunkResults_def)
next
  case (Cons f fs)
  then show ?thesis
    using mergeLoop_later [of 0]
    by (simp add: mergeChunkResults_def Let_def chunkLines_fragmentLines)
qed

text \<open>
  Claim C5. The merge of the source is the merge the specification describes: every
  fragment is split into lines and its whitespace-only lines are dropped; the lines of the
  first fragment are kept in order; each later fragment, in order, contributes its lines
  without the first one when that first line starts with the header pattern in any letter
  case, and all its lines otherwise.
\<close>

theorem mergeChunkResults_refines_spec:
  "mergeChunkResults fragments = mergeSpec fragments"
  by (rule mergeChunkResults_mergeSpec)

theorem mergeChunkResults_refines_spec_witness:
  "mergeChunkResults specFragments = [headerPattern, ''A,1'', ''B,2'']"
proof -
  have "mergeSpec specFragments = [headerPattern, ''A,1'', ''B,2'']"
    by code_simp
  then show ?thesis
    unfolding mergeChunkResults_refines_spec [of specFragments] .
qed

text \<open>
  Claim C1, as stated, fails: the merge does not look at the first line of the first
  fragment, nor at any line after the first of a fragment. For one fragment whose lines
  are a data line, a header line and a data line, line 0 of the merged output does not
  match the header pattern and line 1 does.
\<close>

theorem merged_header_counterexample:
  "\<not> headerRegexTest (mergeChunkResults [headerlessFragment] ! 0)
   \<and> headerRegexTest (mergeChunkResults [headerlessFragment] ! 1)"
  by code_simp

lemma laterFragmentLines_no_header:
  assumes "\<forall>line\<in>set (tl (chunkLines fragment)). \<not> headerRegexTest line"
  shows "\<forall>line\<in>set (laterFragmentLines fragment). \<not> headerRegexTest line"
  using assms
  by (cases "fragmentLines fragment")
    (auto simp: laterFragmentLines_def chunkLines_fragmentLines
      headerRegexTest_matchesHeaderPattern)

text \<open>
  Claim C1, amended. When the first non-blank line of the first fragment matches the header
  pattern, and no fragment has a line matching the pattern after its first non-blank line,
  then line 0 of the merged output is that header line and no other line of the output
  matches the header pattern.
\<close>

theorem merged_header_invariant:
  "chunkLines first = header # rows \<Longrightarrow> headerRegexTest header \<Longrightarrow>
   \<forall>fragment\<in>set (first # later). \<forall>line\<in>set (tl (chunkLines fragment)). \<not> headerRegexTest line \<Longrightarrow>
     mergeChunkResults (first # later) \<noteq> []
     \<and> mergeChunkResults (first # later) ! 0 = header
     \<and> (\<forall>i. 0 < i \<and> i < length (mergeChunkResults (first # later))
            \<longrightarrow> \<not> headerRegexTest (mergeChunkResults (first # later) ! i))"
proof -
  assume f: "chunkLines first = header # rows" and h: "headerRegexTest header"
    and n: "\<forall>fragment\<in>set (first # later). \<forall>line\<in>set (tl (chunkLines fragment)). \<not> headerRegexTest line"
  let ?rest = "rows @ concat (map laterFragmentLines later)"
  have m: "mergeChunkResults (first # later) = header # ?rest"
    using f by (simp add: mergeChunkResults_mergeSpec chunkLines_fragmentLines [symmetric])
  have "\<forall>line\<in>set rows. \<not> headerRegexTest line" using n f by simp
  moreover have "\<forall>line\<in>set (concat (map laterFragmentLines later)). \<not> headerRegexTest line"
    using n laterFragmentLines_no_header by auto
  ultimately have r: "\<forall>line\<in>set ?rest. \<not> headerRegexTest line" by auto
  have "\<forall>i. 0 < i \<and> i < length (header # ?rest) \<longrightarrow> \<not> headerRegexTest ((header # ?rest) ! i)"
  proof (intro allI impI)
    fix i
    assume "0 < i \<and> i < length (header # ?rest)"
    then obtain j where "i = Suc j" "j < length ?rest" by (cases i) auto
    then have "(header # ?rest) ! i \<in> set ?rest"
      using nth_mem [of j ?rest] by (simp only: nth_Cons_Suc)
    with r show "\<not> headerRegexTest ((header # ?rest) ! i)" by blast
  qed
  then show ?thesis unfolding m by simp
qed

theorem merged_header_invariant_witness:
  "mergeChunkResults specFragments ! 0 = headerPattern
   \<and> length (mergeChunkResults specFragments) = 3
   \<and> \<not> headerRegexTest (mergeChunkResults specFragments ! 1)
   \<and> \<not> headerRegexTest (mergeChunkResults specFragments ! 2)"
proof -
  have 1: "chunkLines (headerPattern @ ''\<newline>A,1\<newline>'') = headerPattern # [''A,1'']"
    by code_simp
  have 2: "headerRegexTest headerPattern" by code_simp
  have 3: "\<forall>fragment\<in>set ((headerPattern @ ''\<newline>A,1\<newline>'') # [headerPattern @ ''\<newline>B,2\<newline>'']).
      \<forall>line\<in>set (tl (chunkLines fragment)). \<not> headerRegexTest line"
    by code_simp
  have 4: "length (mergeChunkResults specFragments) = 3" by code_simp
  from merged_header_invariant [OF 1 2 3] 4 show ?thesis
    by (simp add: specFragments_def)
qed

section \<open>Properties of the pipeline\<close>

declare extractLoop.simps [simp del]

lemma chunkCount_less: "j * CHUNK_SIZE < n \<longleftrightarrow> j < chunkCount n"
proof -
  have c: "chunkCount n = (n + 19) div 20"
    by (simp add: chunkCount_def CHUNK_SIZE_def add.commute)
  have "j < chunkCount n \<longleftrightarrow> \<not> (n + 19) div 20 < Suc j"
    unfolding c by linarith
  also have "\<dots> \<longleftrightarrow> \<not> n + 19 < Suc j * 20"
    by (simp only: div_less_iff_less_mult [of 20, simplified])
  also have "\<dots> \<longleftrightarrow> j * CHUNK_SIZE < n"
    by (auto simp: CHUNK_SIZE_def)
  finally show ?thesis by simp
qed

lemma pageIndices_chunkPages:
  assumes "j * CHUNK_SIZE < n"
  shows "map (\<lambda>k. j * CHUNK_SIZE + k) [0..<min (j * CHUNK_SIZE + CHUNK_SIZE) n - j * CHUNK_SIZE]
    = chunkPages n j"
proof -
  have "map (\<lambda>k. j * CHUNK_SIZE + k) [0..<min (j * CHUNK_SIZE + CHUNK_SIZE) n - j * CHUNK_SIZE]
      = map (\<lambda>k. k + j * CHUNK_SIZE) [0..<min (j * CHUNK_SIZE + CHUNK_SIZE) n - j * CHUNK_SIZE]"
    by (simp add: add.commute)
  also have "\<dots> = [j * CHUNK_SIZE..<min (j * CHUNK_SIZE + CHUNK_SIZE) n - j * CHUNK_SIZE + j * CHUNK_SIZE]"
    by (simp only: map_add_upt)
  also have "min (j * CHUNK_SIZE + CHUNK_SIZE) n - j * CHUNK_SIZE + j * CHUNK_SIZE
      = min ((j + 1) * CHUNK_SIZE) n"
    using assms by (simp add: min_def)
  finally show ?thesis by (simp add: chunkPages_def)
qed

lemma extractLoop_step:
  assumes "j < chunkCount n"
  shows "extractLoop ai n (j * CHUNK_SIZE) res calls =
     (case extractChunk ai (chunkPages n j) of
        Inl e \<Rightarrow> (Inl e, calls @ [chunkPages n j])
      | Inr chunkCsv \<Rightarrow>
          extractLoop ai n (Suc j * CHUNK_SIZE)
            (if chunkCsv \<noteq> [] then res @ [chunkCsv] else res) (calls @ [chunkPages n j]))"
proof -
  from assms have l: "j * CHUNK_SIZE < n" by (simp add: chunkCount_less)
  have s: "j * CHUNK_SIZE + CHUNK_SIZE = Suc j * CHUNK_SIZE" by simp
  note p = pageIndices_chunkPages [OF l]
  show ?thesis
    apply (subst extractLoop.simps)
    apply (simp only: l if_True Let_def p extractChunk_def)
    apply (simp only: s)
    done
qed

lemma extractLoop_done:
  assumes "\<not> j < chunkCount n"
  shows "extractLoop ai n (j * CHUNK_SIZE) res calls = (Inr res, calls)"
proof -
  from assms have l: "\<not> j * CHUNK_SIZE < n" by (simp add: chunkCount_less)
  show ?thesis by (subst extractLoop.simps) (simp only: l if_False)
qed

lemma extractLoop_extractAll:
  "extractLoop ai n (j * CHUNK_SIZE) res calls
     = extractAll ai (map (chunkPages n) [j..<chunkCount n]) res calls"
proof (induction "chunkCount n - j" arbitrary: j res calls)
  case 0
  then have "\<not> j < chunkCount n" by simp
  then show ?case by (simp add: extractLoop_done)
next
  case (Suc d)
  then have l: "j < chunkCount n" and d: "d = chunkCount n - Suc j" by simp_all
  from l have u: "[j..<chunkCount n] = j # [Suc j..<chunkCount n]" by (rule upt_conv_Cons)
  have ih: "\<And>res calls. extractLoop ai n (Suc j * CHUNK_SIZE) res calls
      = extractAll ai (map (chunkPages n) [Suc j..<chunkCount n]) res calls"
    by (rule Suc.hyps(1) [OF d])
  show ?case
    unfolding extractLoop_step [OF l] u ih by simp
qed

lemma extractLoop_allChunks:
  "extractLoop ai n 0 [] [] = extractAll ai (allChunks n) [] []"
  using extractLoop_extractAll [of ai n 0 "[]" "[]"] by (simp add: allChunks_def)

lemma extractAll_run:
  "\<exists>k\<le>length cs. snd (extractAll ai cs res calls) = calls @ take k cs
     \<and> (\<forall>i<k - 1. \<exists>t. extractChunk ai (cs ! i) = Inr t)
     \<and> (case fst (extractAll ai cs res calls) of
          Inl e \<Rightarrow> 0 < k \<and> extractChunk ai (cs ! (k - 1)) = Inl e
        | Inr fs \<Rightarrow> k = length cs
            \<and> map Inr fs = map Inr res @ filter (\<lambda>r. r \<noteq> Inr []) (map (extractChunk ai) cs)
            \<and> (\<forall>c\<in>set cs. \<exists>t. extractChunk ai c = Inr t))"
proof (induction cs arbitrary: res calls)
  case Nil
  show ?case by simp
next
  case (Cons c cs)
  show ?case
  proof (cases "extractChunk ai c")
    case (Inl e)
    then have "snd (extractAll ai (c # cs) res calls) = calls @ take 1 (c # cs)"
      and "fst (extractAll ai (c # cs) res calls) = Inl e" by simp_all
    with Inl show ?thesis by (intro exI [of _ 1]) simp
  next
    case (Inr t)
    define res' where "res' = (if t \<noteq> [] then res @ [t] else res)"
    from Inr have e: "extractAll ai (c # cs) res calls = extractAll ai cs res' (calls @ [c])"
      by (simp add: res'_def)
    from Cons.IH [of res' "calls @ [c]"] obtain k where k: "k \<le> length cs"
      "snd (extractAll ai cs res' (calls @ [c])) = (calls @ [c]) @ take k cs"
      "\<forall>i<k - 1. \<exists>t. extractChunk ai (cs ! i) = Inr t"
      "case fst (extractAll ai cs res' (calls @ [c])) of
          Inl e \<Rightarrow> 0 < k \<and> extractChunk ai (cs ! (k - 1)) = Inl e
        | Inr fs \<Rightarrow> k = length cs
            \<and> map Inr fs = map Inr res' @ filter (\<lambda>r. r \<noteq> Inr []) (map (extractChunk ai) cs)
            \<and> (\<forall>c\<in>set cs. \<exists>t. extractChunk ai c = Inr t)"
      by blast
    have 1: "Suc k \<le> length (c # cs)" using k(1) by simp
    have 2: "snd (extractAll ai (c # cs) res calls) = calls @ take (Suc k) (c # cs)"
      using k(2) e by simp
    have 3: "\<forall>i<Suc k - 1. \<exists>t. extractChunk ai ((c # cs) ! i) = Inr t"
    proof (intro allI impI)
      fix i assume i: "i < Suc k - 1"
      show "\<exists>t. extractChunk ai ((c # cs) ! i) = Inr t"
      proof (cases i)
        case 0
        with Inr show ?thesis by simp
      next
        case (Suc i')
        with i have "i' < k - 1" by simp
        with k(3) Suc show ?thesis by simp
      qed
    qed
    have 4: "case fst (extractAll ai (c # cs) res calls) of
          Inl e \<Rightarrow> 0 < Suc k \<and> extractChunk ai ((c # cs) ! (Suc k - 1)) = Inl e
        | Inr fs \<Rightarrow> Suc k = length (c # cs)
            \<and> map Inr fs = map Inr res @ filter (\<lambda>r. r \<noteq> Inr []) (map (extractChunk ai) (c # cs))
            \<and> (\<forall>c\<in>set (c # cs). \<exists>t. extractChunk ai c = Inr t)"
    proof (cases "fst (extractAll ai cs res' (calls @ [c]))")
      case (Inl e')
      with k(4) have "0 < k" "extractChunk ai (cs ! (k - 1)) = Inl e'" by simp_all
      then have "extractChunk ai ((c # cs) ! k) = Inl e'" by (cases k) simp_all
      with Inl show ?thesis unfolding e by simp
    next
      case (Inr fs)
      with k(4) have "k = length cs"
        "map Inr fs = map Inr res' @ filter (\<lambda>r. r \<noteq> Inr []) (map (extractChunk ai) cs)"
        "\<forall>c\<in>set cs. \<exists>t. extractChunk ai c = Inr t" by simp_all
      with Inr \<open>extractChunk ai c = Inr t\<close> show ?thesis unfolding e by (simp add: res'_def)
    qed
    from 1 2 3 4 show ?thesis by blast
  qed
qed

lemma chunkCount_covers: "n \<le> chunkCount n * CHUNK_SIZE"
  using chunkCount_less [of "chunkCount n" n] by simp

lemma chunkCount_least: "0 < n \<Longrightarrow> (chunkCount n - 1) * CHUNK_SIZE < n"
proof -
  assume n: "0 < n"
  then have "0 < chunkCount n" using chunkCount_less [of 0 n] by simp
  then have "chunkCount n - 1 < chunkCount n" by simp
  then show ?thesis by (simp only: chunkCount_less)
qed

lemma chunkPages_nonempty:
  assumes "i < chunkCount n"
  shows "chunkPages n i \<noteq> [] \<and> length (chunkPages n i) \<le> CHUNK_SIZE"
proof -
  from assms have "i * CHUNK_SIZE < n" by (simp only: chunkCount_less)
  then show ?thesis by (auto simp: chunkPages_def CHUNK_SIZE_def)
qed

lemma concat_chunkPages:
  "j \<le> chunkCount n \<Longrightarrow> concat (map (chunkPages n) [0..<j]) = [0..<min (j * CHUNK_SIZE) n]"
proof (induction j)
  case 0
  show ?case by simp
next
  case (Suc j)
  then have "j < chunkCount n" by simp
  then have l: "j * CHUNK_SIZE < n" by (simp only: chunkCount_less)
  from Suc have ih: "concat (map (chunkPages n) [0..<j]) = [0..<j * CHUNK_SIZE]"
    using l by (simp add: min_def)
  have "concat (map (chunkPages n) [0..<Suc j])
      = [0..<j * CHUNK_SIZE] @ [j * CHUNK_SIZE..<min (Suc j * CHUNK_SIZE) n]"
    by (simp add: ih chunkPages_def)
  also have "\<dots> = [0..<min (Suc j * CHUNK_SIZE) n]"
  proof -
    obtain d where d: "min (Suc j * CHUNK_SIZE) n = j * CHUNK_SIZE + d"
      using l by (metis le_add_diff_inverse less_imp_le min.boundedI le_add2 mult_Suc add.commute)
    show ?thesis unfolding d by (rule upt_add_eq_append [symmetric]) simp
  qed
  finally show ?case .
qed

lemma concat_allChunks: "concat (map (chunkPages n) [0..<chunkCount n]) = [0..<n]"
  using concat_chunkPages [of "chunkCount n" n] chunkCount_covers [of n] by (simp add: min_def)

lemma extractChunk_errors:
  "extractChunk ai c = Inl e \<Longrightarrow> e = ServiceBusyError \<or> e = ExtractionFailedError"
  by (auto simp: extractChunk_def retry_unrolled split: api_result.splits if_splits)

lemma convertPdfToCsv_unfold:
  assumes "apiKey \<noteq> None" and "apiKey \<noteq> Some []" and "0 < n"
  shows "convertPdfToCsv apiKey n ai =
     (case extractAll ai (allChunks n) [] [] of
        (Inl e, calls) \<Rightarrow> (Inl e, calls)
      | (Inr csvChunkResults, calls) \<Rightarrow>
          if length (mergeChunkResults csvChunkResults) < 2 then (Inl EmptyResultError, calls)
          else (Inr (join CHR ''\<newline>'' (applyFillDownLogic (mergeChunkResults csvChunkResults))),
                calls))"
proof -
  from assms(1,2) obtain y where "apiKey = Some y" "y \<noteq> []" by (cases apiKey) auto
  with assms(3) show ?thesis
    by (simp add: convertPdfToCsv_def extractLoop_allChunks Let_def split: prod.splits sum.splits)
qed

lemma convertPdfToCsv_calls:
  assumes "apiKey \<noteq> None" and "apiKey \<noteq> Some []" and "0 < n"
  shows "snd (convertPdfToCsv apiKey n ai) = snd (extractAll ai (allChunks n) [] [])"
  unfolding convertPdfToCsv_unfold [OF assms]
  by (simp split: prod.splits sum.splits)

lemma silentService_empty: "extractChunk silentService c = Inr []"
proof -
  have "cleanResponse None = []" by code_simp
  then show ?thesis by (simp add: extractChunk_def retry_unrolled silentService_def)
qed

lemma convertPdfToCsv_all_calls:
  assumes key: "apiKey \<noteq> None" "apiKey \<noteq> Some []" and pos: "0 < n"
    and ret: "\<forall>i<chunkCount n - 1. \<exists>t. extractChunk ai (chunkPages n i) = Inr t"
  shows "snd (convertPdfToCsv apiKey n ai) = map (chunkPages n) [0..<chunkCount n]"
proof -
  let ?cs = "allChunks n"
  let ?E = "extractAll ai ?cs [] []"
  have len: "length ?cs = chunkCount n" by (simp add: allChunks_def)
  have nth: "\<And>i. i < chunkCount n \<Longrightarrow> ?cs ! i = chunkPages n i"
    by (simp add: allChunks_def)
  from extractAll_run [of ?cs ai "[]" "[]"] obtain k where k: "k \<le> length ?cs"
    "snd ?E = [] @ take k ?cs"
    "case fst ?E of
        Inl e \<Rightarrow> 0 < k \<and> extractChunk ai (?cs ! (k - 1)) = Inl e
      | Inr fs \<Rightarrow> k = length ?cs
          \<and> map Inr fs = map Inr [] @ filter (\<lambda>r. r \<noteq> Inr []) (map (extractChunk ai) ?cs)
          \<and> (\<forall>c\<in>set ?cs. \<exists>t. extractChunk ai c = Inr t)"
    by blast
  have "k = chunkCount n"
  proof (cases "fst ?E")
    case (Inl e)
    with k(3) have kpos: "0 < k" and f: "extractChunk ai (?cs ! (k - 1)) = Inl e" by simp_all
    from kpos k(1) len have "k - 1 < chunkCount n" by simp
    with f have f': "extractChunk ai (chunkPages n (k - 1)) = Inl e" by (simp add: nth)
    have "\<not> k - 1 < chunkCount n - 1"
    proof
      assume "k - 1 < chunkCount n - 1"
      with ret have "\<exists>t. extractChunk ai (chunkPages n (k - 1)) = Inr t" by blast
      with f' show False by simp
    qed
    with kpos k(1) len show ?thesis by simp
  next
    case (Inr fs)
    with k(3) len show ?thesis by simp
  qed
  with k(2) len have "snd ?E = ?cs" by simp
  then show ?thesis
    by (simp add: convertPdfToCsv_calls [OF key pos] allChunks_def)
qed

text \<open>
  Claim C6. With the API key configured: a document without pages fails with
  \<open>InvalidDocumentError\<close> and no extraction call. For \<open>N > 0\<close> pages, when the extraction
  calls return (for every chunk before the last one; the last call comes after all chunks
  have been built), the extraction calls are exactly the \<open>ceil (N / 20)\<close> chunks with the
  page ranges \<open>[i * 20, min ((i + 1) * 20) N)\<close>, in this order. These page ranges are
  non-empty, hold at most 20 pages, and put one after the other they are the pages
  \<open>0, \<dots>, N - 1\<close> in order, so they are contiguous, do not overlap and cover the document.
  \<open>chunkCount N\<close> is the least number of chunks of 20 pages that hold \<open>N\<close> pages, and it is
  3 for 45 pages.
\<close>

theorem page_chunking:
  "apiKey \<noteq> None \<Longrightarrow> apiKey \<noteq> Some [] \<Longrightarrow>
     (pageCount = 0 \<longrightarrow> convertPdfToCsv apiKey pageCount ai = (Inl InvalidDocumentError, []))
   \<and> (0 < pageCount
        \<and> (\<forall>i<chunkCount pageCount - 1. \<exists>t. extractChunk ai (chunkPages pageCount i) = Inr t)
      \<longrightarrow> snd (convertPdfToCsv apiKey pageCount ai)
             = map (chunkPages pageCount) [0..<chunkCount pageCount]
          \<and> length (snd (convertPdfToCsv apiKey pageCount ai)) = chunkCount pageCount)
   \<and> concat (map (chunkPages pageCount) [0..<chunkCount pageCount]) = [0..<pageCount]
   \<and> (\<forall>i<chunkCount pageCount.
         chunkPages pageCount i \<noteq> [] \<and> length (chunkPages pageCount i) \<le> CHUNK_SIZE)
   \<and> pageCount \<le> chunkCount pageCount * CHUNK_SIZE
   \<and> (0 < pageCount \<longrightarrow> (chunkCount pageCount - 1) * CHUNK_SIZE < pageCount)
   \<and> chunkCount 45 = 3"
proof -
  assume key: "apiKey \<noteq> None" "apiKey \<noteq> Some []"
  from key obtain y where y: "apiKey = Some y" "y \<noteq> []" by (cases apiKey) auto
  have zero: "pageCount = 0 \<longrightarrow> convertPdfToCsv apiKey pageCount ai = (Inl InvalidDocumentError, [])"
    using y by (simp add: convertPdfToCsv_def)
  have run: "snd (convertPdfToCsv apiKey pageCount ai)
             = map (chunkPages pageCount) [0..<chunkCount pageCount]
          \<and> length (snd (convertPdfToCsv apiKey pageCount ai)) = chunkCount pageCount"
    if h: "0 < pageCount
        \<and> (\<forall>i<chunkCount pageCount - 1. \<exists>t. extractChunk ai (chunkPages pageCount i) = Inr t)"
  proof -
    from h have pos: "0 < pageCount"
      and ret: "\<forall>i<chunkCount pageCount - 1. \<exists>t. extractChunk ai (chunkPages pageCount i) = Inr t"
      by simp_all
    from convertPdfToCsv_all_calls [OF key pos ret] show ?thesis by simp
  qed
  have c45: "chunkCount 45 = 3" by (simp add: chunkCount_def CHUNK_SIZE_def)
  have size: "\<forall>i<chunkCount pageCount.
      chunkPages pageCount i \<noteq> [] \<and> length (chunkPages pageCount i) \<le> CHUNK_SIZE"
    using chunkPages_nonempty by blast
  have least: "0 < pageCount \<longrightarrow> (chunkCount pageCount - 1) * CHUNK_SIZE < pageCount"
    using chunkCount_least by blast
  have run': "0 < pageCount
        \<and> (\<forall>i<chunkCount pageCount - 1. \<exists>t. extractChunk ai (chunkPages pageCount i) = Inr t)
      \<longrightarrow> snd (convertPdfToCsv apiKey pageCount ai)
             = map (chunkPages pageCount) [0..<chunkCount pageCount]
          \<and> length (snd (convertPdfToCsv apiKey pageCount ai)) = chunkCount pageCount"
    by (rule impI) (rule run)
  show ?thesis
    by (intro conjI zero run' concat_allChunks size chunkCount_covers least c45)
qed

theorem page_chunking_witness:
  "snd (convertPdfToCsv (Some ''key'') 45 silentService) = map (chunkPages 45) [0..<3]
   \<and> length (snd (convertPdfToCsv (Some ''key'') 45 silentService)) = 3"
proof -
  have k1: "Some ''key'' \<noteq> None" and k2: "Some ''key'' \<noteq> Some []" by simp_all
  have p: "0 < (45::nat)
      \<and> (\<forall>i<chunkCount 45 - 1. \<exists>t. extractChunk silentService (chunkPages 45 i) = Inr t)"
    by (simp add: silentService_empty)
  note th = page_chunking [OF k1 k2, of 45 silentService]
  from th have c: "chunkCount 45 = 3" by (elim conjE)
  from th have "0 < (45::nat)
        \<and> (\<forall>i<chunkCount 45 - 1. \<exists>t. extractChunk silentService (chunkPages 45 i) = Inr t)
      \<longrightarrow> snd (convertPdfToCsv (Some ''key'') 45 silentService)
             = map (chunkPages 45) [0..<chunkCount 45]
          \<and> length (snd (convertPdfToCsv (Some ''key'') 45 silentService)) = chunkCount 45"
    by (elim conjE)
  with p have "snd (convertPdfToCsv (Some ''key'') 45 silentService)
             = map (chunkPages 45) [0..<chunkCount 45]
          \<and> length (snd (convertPdfToCsv (Some ''key'') 45 silentService)) = chunkCount 45"
    by (rule rev_mp)
  then show ?thesis unfolding c .
qed

lemma extractAll_not_empty_result:
  "fst (extractAll ai cs res calls) \<noteq> Inl EmptyResultError"
proof
  assume a: "fst (extractAll ai cs res calls) = Inl EmptyResultError"
  from extractAll_run [of cs ai res calls] obtain k where
    "case fst (extractAll ai cs res calls) of
          Inl e \<Rightarrow> 0 < k \<and> extractChunk ai (cs ! (k - 1)) = Inl e
        | Inr fs \<Rightarrow> k = length cs
            \<and> map Inr fs = map Inr res @ filter (\<lambda>r. r \<noteq> Inr []) (map (extractChunk ai) cs)
            \<and> (\<forall>c\<in>set cs. \<exists>t. extractChunk ai c = Inr t)"
    by blast
  with a have "extractChunk ai (cs ! (k - 1)) = Inl EmptyResultError" by simp
  then show False using extractChunk_errors by blast
qed

lemma incomplete_data_message:
  "includes_str (errorMessage EmptyResultError) ''incomplete data''"
  by code_simp

lemma empty_result_error_core:
  "(fst (convertPdfToCsv apiKey pageCount ai) = Inl EmptyResultError
      \<longleftrightarrow> apiKey \<noteq> None \<and> apiKey \<noteq> Some [] \<and> 0 < pageCount
          \<and> (\<exists>csvChunkResults. fst (extractLoop ai pageCount 0 [] []) = Inr csvChunkResults
                \<and> length (mergeChunkResults csvChunkResults) < 2))
   \<and> (\<forall>csvChunkResults.
         apiKey \<noteq> None \<and> apiKey \<noteq> Some [] \<and> 0 < pageCount
         \<and> fst (extractLoop ai pageCount 0 [] []) = Inr csvChunkResults
         \<and> 2 \<le> length (mergeChunkResults csvChunkResults)
       \<longrightarrow> fst (convertPdfToCsv apiKey pageCount ai)
            = Inr (join CHR ''\<newline>'' (applyFillDownLogic (mergeChunkResults csvChunkResults))))"
proof (cases "apiKey \<noteq> None \<and> apiKey \<noteq> Some [] \<and> 0 < pageCount")
  case False
  then show ?thesis by (auto simp: convertPdfToCsv_def)
next
  case True
  then have key: "apiKey \<noteq> None" "apiKey \<noteq> Some []" and pos: "0 < pageCount" by simp_all
  note u = convertPdfToCsv_unfold [OF key pos, of ai]
  obtain r calls where e: "extractAll ai (allChunks pageCount) [] [] = (r, calls)"
    by (cases "extractAll ai (allChunks pageCount) [] []")
  have ne: "r \<noteq> Inl EmptyResultError"
    using extractAll_not_empty_result [of ai "allChunks pageCount" "[]" "[]"] e by simp
  show ?thesis
  proof (cases r)
    case (Inl x)
    with ne True show ?thesis
      by (simp add: u e extractLoop_allChunks)
  next
    case (Inr fs)
    with True show ?thesis
      by (simp add: u e extractLoop_allChunks)
  qed
qed

text \<open>
  Claim C9. The pipeline fails with \<open>EmptyResultError\<close> exactly when it has come to the
  merge (the key is configured, the document has pages and every extraction call has
  returned) and the merged output has fewer than 2 lines; it then returns no CSV text. When
  the merged output has 2 lines or more it returns the corrected lines joined by newlines.
  The message of the error speaks of incomplete data.
\<close>

theorem empty_result_error:
  "(fst (convertPdfToCsv apiKey pageCount ai) = Inl EmptyResultError
      \<longleftrightarrow> apiKey \<noteq> None \<and> apiKey \<noteq> Some [] \<and> 0 < pageCount
          \<and> (\<exists>csvChunkResults. fst (extractLoop ai pageCount 0 [] []) = Inr csvChunkResults
                \<and> length (mergeChunkResults csvChunkResults) < 2))
   \<and> (\<forall>csvChunkResults.
         apiKey \<noteq> None \<and> apiKey \<noteq> Some [] \<and> 0 < pageCount
         \<and> fst (extractLoop ai pageCount 0 [] []) = Inr csvChunkResults
         \<and> 2 \<le> length (mergeChunkResults csvChunkResults)
       \<longrightarrow> fst (convertPdfToCsv apiKey pageCount ai)
            = Inr (join CHR ''\<newline>'' (applyFillDownLogic (mergeChunkResults csvChunkResults))))
   \<and> includes_str (errorMessage EmptyResultError) ''incomplete data''"
  using empty_result_error_core [of apiKey pageCount ai] incomplete_data_message
  by (intro conjI) (elim conjE, assumption)+

theorem empty_result_error_witness:
  "fst (convertPdfToCsv (Some ''key'') 45 silentService) = Inl EmptyResultError"
proof -
  have u3: "[0..<3] = [0, 1, 2::nat]" by code_simp
  have a: "extractAll silentService (allChunks 45) [] [] = (Inr [], allChunks 45)"
    by (simp add: allChunks_def chunkCount_def CHUNK_SIZE_def u3 silentService_empty)
  have m: "length (mergeChunkResults []) < 2" by (simp add: mergeChunkResults_def)
  from a m have "\<exists>csvChunkResults. fst (extractLoop silentService 45 0 [] []) = Inr csvChunkResults
      \<and> length (mergeChunkResults csvChunkResults) < 2"
    by (simp add: extractLoop_allChunks)
  then show ?thesis
    using empty_result_error [of "Some ''key''" 45 silentService] by simp
qed







section \<open>Properties of the fill-down correction\<close>

declare fillDownLoop.simps [simp del]

lemma length_setField: "length (setField r i v) = max (length r) (Suc i)"
  by (auto simp: setField_def)

lemma getField_setField:
  "getField (setField r i v) j = (if j = i then v else getField r j)"
  by (auto simp: getField_def setField_def nth_append)

lemma row_eqI:
  assumes "length x = length y" and "\<And>j. getField x j = getField y j"
  shows "x = y"
proof (rule nth_equalityI)
  show "length x = length y" by (rule assms(1))
next
  fix i assume "i < length x"
  with assms(1) assms(2) [of i] show "x ! i = y ! i" by (simp add: getField_def)
qed

lemma setField_again:
  assumes "t \<noteq> a"
  shows "setField (setField (setField (setField c t u) a v) t u) a v
       = setField (setField c t u) a v"
  by (rule row_eqI) (auto simp: length_setField getField_setField)

lemma fillDownStep_idem:
  assumes "r \<noteq> t" and "r \<noteq> a" and "t \<noteq> a"
  shows "fillDownStep r t a p (fillDownStep r t a p c) = fillDownStep r t a p c"
proof (cases "fillDownStep r t a p c = c")
  case True
  then show ?thesis by simp
next
  case False
  then have c: "\<not> length p \<le> r" "\<not> length c \<le> r"
    "unquote (getField c r) \<noteq> []" "unquote (getField c r) = unquote (getField p r)"
    "max t a < length p"
    and s: "fillDownStep r t a p c = setField (setField c t (getField p t)) a (getField p a)"
    by (auto simp: fillDownStep_def Let_def split: if_splits)
  let ?c = "setField (setField c t (getField p t)) a (getField p a)"
  have l: "\<not> length ?c \<le> r" using c(2) by (simp add: length_setField)
  have g: "getField ?c r = getField c r" using assms by (simp add: getField_setField)
  have gt: "getField ?c t = getField p t" using assms by (simp add: getField_setField)
  have ga: "getField ?c a = getField p a" by (simp add: getField_setField)
  have "fillDownStep r t a p ?c = ?c"
    using c l assms(3) by (simp add: fillDownStep_def [of r t a p ?c] Let_def g gt ga setField_again)
  then show ?thesis by (simp add: s)
qed

lemma fillFrom_idem:
  assumes "r \<noteq> t" and "r \<noteq> a" and "t \<noteq> a"
  shows "fillFrom r t a p (fillFrom r t a p rows) = fillFrom r t a p rows"
  by (induction rows arbitrary: p) (simp_all add: fillDownStep_idem [OF assms])

lemma fillRows_idem:
  assumes "r \<noteq> t" and "r \<noteq> a" and "t \<noteq> a"
  shows "fillRows r t a (fillRows r t a rows) = fillRows r t a rows"
  by (cases rows) (simp_all add: fillRows_def fillFrom_idem [OF assms])

lemma length_fillFrom: "length (fillFrom r t a p rows) = length rows"
  by (induction rows arbitrary: p) simp_all

lemma length_fillRows: "length (fillRows r t a rows) = length rows"
  by (cases rows) (simp_all add: fillRows_def length_fillFrom)

lemma fillDownLoop_from:
  "0 < i \<Longrightarrow> i \<le> length rows \<Longrightarrow>
     fillDownLoop r t a i rows = take i rows @ fillFrom r t a (rows ! (i - 1)) (drop i rows)"
proof (induction "length rows - i" arbitrary: i rows)
  case 0
  then have "i = length rows" by simp
  then show ?case by (subst fillDownLoop.simps) simp
next
  case (Suc d)
  then have i: "i < length rows" by simp
  let ?x = "fillDownStep r t a (rows ! (i - 1)) (rows ! i)"
  let ?rows = "rows[i := ?x]"
  have d: "d = length ?rows - Suc i" using Suc.hyps(2) by simp
  have ih: "fillDownLoop r t a (Suc i) ?rows
      = take (Suc i) ?rows @ fillFrom r t a (?rows ! (Suc i - 1)) (drop (Suc i) ?rows)"
    using i by (intro Suc.hyps(1) [OF d]) simp_all
  have 1: "take (Suc i) ?rows = take i rows @ [?x]"
    using i by (simp add: take_Suc_conv_app_nth)
  have 2: "drop (Suc i) ?rows = drop (Suc i) rows" by simp
  have 3: "?rows ! (Suc i - 1) = ?x" using i by simp
  have 4: "drop i rows = rows ! i # drop (Suc i) rows"
    using i by (simp add: Cons_nth_drop_Suc)
  have "fillDownLoop r t a i rows = fillDownLoop r t a (Suc i) ?rows"
    using i by (subst fillDownLoop.simps) simp
  also have "\<dots> = (take i rows @ [?x]) @ fillFrom r t a ?x (drop (Suc i) rows)"
    unfolding ih 1 2 3 ..
  also have "\<dots> = take i rows @ fillFrom r t a (rows ! (i - 1)) (drop i rows)"
    unfolding 4 by simp
  finally show ?case .
qed

lemma fillDownLoop_fillRows: "fillDownLoop r t a 1 rows = fillRows r t a rows"
proof (cases rows)
  case Nil
  then show ?thesis by (subst fillDownLoop.simps) (simp add: fillRows_def)
next
  case (Cons x xs)
  then show ?thesis using fillDownLoop_from [of 1 rows r t a] by (simp add: fillRows_def)
qed

lemma split_nonempty: "split sep s \<noteq> []"
  by (induction s) (simp_all split: list.splits)

lemma split_no_sep: "sep \<notin> set s \<Longrightarrow> split sep s = [s]"
  by (induction s) auto

lemma split_append_sep:
  "sep \<notin> set x \<Longrightarrow> split sep (x @ sep # rest) = x # split sep rest"
  by (induction x) auto

lemma split_fields_no_sep: "f \<in> set (split sep s) \<Longrightarrow> sep \<notin> set f"
proof (induction s arbitrary: f)
  case Nil
  then show ?case by simp
next
  case (Cons c s)
  show ?case
  proof (cases "c = sep")
    case True
    with Cons show ?thesis by auto
  next
    case False
    obtain g gs where g: "split sep s = g # gs"
      using split_nonempty [of sep s] by (cases "split sep s") auto
    with Cons.prems False have "f = c # g \<or> f \<in> set gs" by simp
    moreover have "sep \<notin> set g" using Cons.IH [of g] g by simp
    moreover have "f \<in> set gs \<Longrightarrow> sep \<notin> set f" using Cons.IH [of f] g by simp
    ultimately show ?thesis using False by auto
  qed
qed

lemma split_join:
  "fields \<noteq> [] \<Longrightarrow> \<forall>f\<in>set fields. sep \<notin> set f \<Longrightarrow> split sep (join sep fields) = fields"
proof (induction sep fields rule: join.induct)
  case (1 sep)
  then show ?case by simp
next
  case (2 sep x)
  then show ?case by (simp add: split_no_sep)
next
  case (3 sep x y ys)
  then show ?case by (simp add: split_append_sep)
qed

lemma join_split: "join sep (split sep s) = s"
proof (induction s)
  case Nil
  show ?case by simp
next
  case (Cons c s)
  obtain g gs where g: "split sep s = g # gs"
    using split_nonempty [of sep s] by (cases "split sep s") auto
  show ?case
  proof (cases "c = sep")
    case True
    with Cons g show ?thesis by simp
  next
    case False
    with Cons g show ?thesis by (cases gs) simp_all
  qed
qed

lemma joinRow_splitRow: "joinRow (splitRow line) = line"
  by (simp add: joinRow_def splitRow_def comp_def join_split)

lemma wfRow_splitRow: "wfRow (splitRow line)"
  using split_fields_no_sep [of _ "CHR '',''" line]
  by (auto simp: wfRow_def splitRow_def split_nonempty list_all_iff fieldText_def)

lemma splitRow_joinRow: "wfRow r \<Longrightarrow> splitRow (joinRow r) = normRow r"
proof -
  assume w: "wfRow r"
  let ?fs = "map fieldText r"
  have "?fs \<noteq> []" using w by (simp add: wfRow_def)
  moreover have "\<forall>f\<in>set ?fs. CHR '','' \<notin> set f"
    using w by (auto simp: wfRow_def list_all_iff)
  ultimately have "split CHR '','' (join CHR '','' ?fs) = ?fs" by (rule split_join)
  moreover have "joinRow r = join CHR '','' ?fs"
    by (simp add: joinRow_def fieldText_def [abs_def])
  ultimately show ?thesis by (simp add: splitRow_def normRow_def)
qed

lemma joinRow_normRow: "joinRow (normRow r) = joinRow r"
  by (simp add: joinRow_def normRow_def comp_def fieldText_def split: option.splits)

lemma length_normRow: "length (normRow r) = length r"
  by (simp add: normRow_def)

lemma normRow_length_eq: "normRow x = normRow y \<Longrightarrow> length x = length y"
  using length_normRow by metis

lemma normRow_fieldText:
  assumes "normRow x = normRow y"
  shows "fieldText (getField x i) = fieldText (getField y i)"
proof -
  note l = normRow_length_eq [OF assms]
  show ?thesis
  proof (cases "i < length x")
    case True
    from assms have "normRow x ! i = normRow y ! i" by (rule arg_cong)
    with True l show ?thesis by (simp add: normRow_def getField_def)
  next
    case False
    with l show ?thesis by (simp add: getField_def)
  qed
qed

lemma unquote_fieldText: "unquote f = stripQuotes (trim (fieldText f))"
proof (cases f)
  case None
  have "stripQuotes (trim []) = []" by code_simp
  with None show ?thesis by (simp add: unquote_def fieldText_def)
next
  case (Some x)
  then show ?thesis by (simp add: unquote_def fieldText_def)
qed

lemma normRow_unquote:
  "normRow x = normRow y \<Longrightarrow> unquote (getField x i) = unquote (getField y i)"
  using normRow_fieldText [of x y i] by (simp add: unquote_fieldText)

lemma normRow_setField:
  "normRow (setField c i v) =
     (if i < length c then (normRow c)[i := Some (fieldText v)]
      else normRow c @ replicate (i - length c) (Some []) @ [Some (fieldText v)])"
  by (simp add: normRow_def setField_def map_update fieldText_def)

lemma normRow_setField_cong:
  assumes "normRow c = normRow c'" and "fieldText v = fieldText v'"
  shows "normRow (setField c i v) = normRow (setField c' i v')"
  using assms normRow_length_eq [OF assms(1)] by (simp add: normRow_setField)

lemma fillDownStep_cong:
  assumes p: "normRow p = normRow p'" and c: "normRow c = normRow c'"
  shows "normRow (fillDownStep r t a p c) = normRow (fillDownStep r t a p' c')"
proof -
  note lp = normRow_length_eq [OF p] and lc = normRow_length_eq [OF c]
  note up = normRow_unquote [OF p] and uc = normRow_unquote [OF c]
  have s: "normRow (setField (setField c t (getField p t)) a (getField p a))
      = normRow (setField (setField c' t (getField p' t)) a (getField p' a))"
    by (intro normRow_setField_cong c normRow_fieldText p)
  show ?thesis
    unfolding fillDownStep_def Let_def lp lc up uc
    using c s by simp
qed

lemma fillFrom_cong:
  assumes "normRow p = normRow p'" and "map normRow rows = map normRow rows'"
  shows "map normRow (fillFrom r t a p rows) = map normRow (fillFrom r t a p' rows')"
  using assms
proof (induction rows arbitrary: p p' rows')
  case Nil
  then show ?case by simp
next
  case (Cons c rows)
  from Cons.prems(2) obtain c' rest' where r: "rows' = c' # rest'"
    "normRow c = normRow c'" "map normRow rows = map normRow rest'"
    by (cases rows') auto
  have s: "normRow (fillDownStep r t a p c) = normRow (fillDownStep r t a p' c')"
    using Cons.prems(1) r(2) by (rule fillDownStep_cong)
  show ?case unfolding r(1) using s Cons.IH [OF s r(3)] by simp
qed

lemma fillRows_cong:
  assumes "map normRow rows = map normRow rows'"
  shows "map normRow (fillRows r t a rows) = map normRow (fillRows r t a rows')"
proof (cases rows)
  case Nil
  with assms show ?thesis by (simp add: fillRows_def)
next
  case (Cons c cs)
  with assms obtain c' cs' where r: "rows' = c' # cs'"
    "normRow c = normRow c'" "map normRow cs = map normRow cs'"
    by (cases rows') auto
  show ?thesis unfolding Cons r(1) using r(2) fillFrom_cong [OF r(2) r(3)]
    by (simp add: fillRows_def)
qed

lemma normRow_idem: "normRow (normRow r) = normRow r"
  by (simp add: normRow_def fieldText_def)

lemma map_joinRow_cong:
  assumes "map normRow xs = map normRow ys"
  shows "map joinRow xs = map joinRow ys"
proof -
  have "map joinRow xs = map joinRow (map normRow xs)"
    by (simp add: joinRow_normRow)
  also have "\<dots> = map joinRow (map normRow ys)" by (simp only: assms)
  also have "\<dots> = map joinRow ys" by (simp add: joinRow_normRow)
  finally show ?thesis .
qed

lemma fieldText_getField_no_comma:
  assumes "wfRow p"
  shows "CHR '','' \<notin> set (fieldText (getField p i))"
proof (cases "i < length p")
  case True
  then have "p ! i \<in> set p" by simp
  with assms True show ?thesis by (simp add: wfRow_def list_all_iff getField_def)
next
  case False
  then show ?thesis by (simp add: getField_def fieldText_def)
qed

lemma wfRow_setField:
  assumes "wfRow c" and "CHR '','' \<notin> set (fieldText v)"
  shows "wfRow (setField c i v)"
proof -
  have "set (setField c i v) \<subseteq> set c \<union> {None, v}"
    using set_update_subset_insert [of c i v] by (auto simp: setField_def)
  moreover have "CHR '','' \<notin> set (fieldText None)" by (simp add: fieldText_def)
  ultimately have "\<forall>f\<in>set (setField c i v). CHR '','' \<notin> set (fieldText f)"
    using assms by (auto simp: wfRow_def list_all_iff)
  moreover have "setField c i v \<noteq> []" using assms(1) by (auto simp: setField_def wfRow_def)
  ultimately show ?thesis by (simp add: wfRow_def list_all_iff)
qed

lemma wfRow_fillDownStep:
  assumes "wfRow p" and "wfRow c"
  shows "wfRow (fillDownStep r t a p c)"
  using assms
  by (simp add: fillDownStep_def Let_def wfRow_setField fieldText_getField_no_comma)

lemma wfRow_fillFrom:
  "wfRow p \<Longrightarrow> list_all wfRow rows \<Longrightarrow> list_all wfRow (fillFrom r t a p rows)"
  by (induction rows arbitrary: p) (simp_all add: wfRow_fillDownStep)

lemma wfRow_fillRows: "list_all wfRow rows \<Longrightarrow> list_all wfRow (fillRows r t a rows)"
  by (cases rows) (simp_all add: fillRows_def wfRow_fillFrom)

lemma indexOf_Some: "indexOf xs x = Some i \<Longrightarrow> i < length xs \<and> xs ! i = x"
proof (induction xs arbitrary: i)
  case Nil
  then show ?case by simp
next
  case (Cons y ys)
  then show ?case by (cases "y = x") auto
qed

lemma headerIndices_distinct:
  assumes "headerIndices h = Some (r, t, a)"
  shows "r \<noteq> t \<and> r \<noteq> a \<and> t \<noteq> a"
proof -
  let ?hd = "map (\<lambda>f. unquote (Some f)) (split CHR '','' h)"
  from assms have i: "indexOf ?hd ''Run Num'' = Some r" "indexOf ?hd ''Pick Up Time'' = Some t"
    "indexOf ?hd ''Pickup Address'' = Some a"
    by (auto simp: headerIndices_def Let_def split: option.splits)
  from indexOf_Some [OF i(1)] indexOf_Some [OF i(2)] indexOf_Some [OF i(3)]
  have "?hd ! r = ''Run Num''" "?hd ! t = ''Pick Up Time''" "?hd ! a = ''Pickup Address''"
    by simp_all
  then show ?thesis by auto
qed

lemma applyFillDownLogic_unfold:
  "applyFillDownLogic csvLines =
     (if length csvLines \<le> 1 then csvLines
      else case headerIndices (hd csvLines) of
             None \<Rightarrow> csvLines
           | Some (r, t, a) \<Rightarrow> hd csvLines # map joinRow (fillRows r t a (map splitRow (tl csvLines))))"
  by (simp add: applyFillDownLogic_def headerIndices_def Let_def
      fillDownLoop_fillRows [unfolded One_nat_def] split: option.splits)

lemma fillRows_twice:
  assumes "r \<noteq> t" and "r \<noteq> a" and "t \<noteq> a"
  shows "map joinRow (fillRows r t a (map splitRow (map joinRow (fillRows r t a (map splitRow ls)))))
       = map joinRow (fillRows r t a (map splitRow ls))"
proof -
  let ?P = "fillRows r t a (map splitRow ls)"
  have "list_all wfRow (map splitRow ls)" by (simp add: list_all_iff wfRow_splitRow)
  then have w: "list_all wfRow ?P" by (rule wfRow_fillRows)
  have n: "map splitRow (map joinRow ?P) = map normRow ?P"
    using w by (simp add: list_all_iff splitRow_joinRow)
  have "map normRow (fillRows r t a (map normRow ?P)) = map normRow (fillRows r t a ?P)"
    by (rule fillRows_cong) (simp add: normRow_idem)
  also have "\<dots> = map normRow ?P" by (simp only: fillRows_idem [OF assms])
  finally have "map joinRow (fillRows r t a (map normRow ?P)) = map joinRow ?P"
    by (rule map_joinRow_cong)
  then show ?thesis by (simp only: n)
qed

text \<open>
  Claim C8. The fill-down correction is idempotent on every list of lines: correcting the
  corrected lines gives the corrected lines.
\<close>

theorem applyFillDownLogic_idempotent:
  "applyFillDownLogic (applyFillDownLogic csvLines) = applyFillDownLogic csvLines"
proof (cases "length csvLines \<le> 1")
  case True
  then show ?thesis by (simp add: applyFillDownLogic_unfold)
next
  case False
  show ?thesis
  proof (cases "headerIndices (hd csvLines)")
    case None
    with False show ?thesis by (simp add: applyFillDownLogic_unfold)
  next
    case (Some rta)
    obtain r t a where rta: "rta = (r, t, a)" by (cases rta)
    let ?P = "fillRows r t a (map splitRow (tl csvLines))"
    let ?out = "hd csvLines # map joinRow ?P"
    from Some rta have d: "r \<noteq> t" "r \<noteq> a" "t \<noteq> a"
      using headerIndices_distinct by blast+
    have 1: "applyFillDownLogic csvLines = ?out"
      using False Some rta by (simp add: applyFillDownLogic_unfold)
    have "length ?out = length csvLines" using False by (simp add: length_fillRows)
    then have l: "\<not> length ?out \<le> 1" using False by simp
    have "applyFillDownLogic ?out
        = hd csvLines # map joinRow (fillRows r t a (map splitRow (map joinRow ?P)))"
      using l Some rta by (simp add: applyFillDownLogic_unfold [of ?out])
    also have "\<dots> = ?out" by (simp only: fillRows_twice [OF d])
    finally show ?thesis by (simp only: 1)
  qed
qed

lemma fillFrom_nth:
  "j < length rows \<Longrightarrow>
     fillFrom r t a p rows ! j =
       fillDownStep r t a (if j = 0 then p else fillFrom r t a p rows ! (j - 1)) (rows ! j)"
proof (induction rows arbitrary: p j)
  case Nil
  then show ?case by simp
next
  case (Cons c rows)
  show ?case
  proof (cases j)
    case 0
    then show ?thesis by simp
  next
    case (Suc k)
    with Cons.prems have k: "k < length rows" by simp
    show ?thesis
      using Cons.IH [OF k, of "fillDownStep r t a p c"] Suc by (cases k) simp_all
  qed
qed

lemma fillRows_nth:
  "0 < j \<Longrightarrow> j < length rows \<Longrightarrow>
     fillRows r t a rows ! j = fillDownStep r t a (fillRows r t a rows ! (j - 1)) (rows ! j)"
proof -
  assume j: "0 < j" "j < length rows"
  then obtain c cs where rows: "rows = c # cs" by (cases rows) auto
  from j obtain k where k: "j = Suc k" by (cases j) auto
  with j rows have kl: "k < length cs" by simp
  show ?thesis
    using fillFrom_nth [OF kl, of r t a c] by (cases k) (simp_all add: rows k fillRows_def)
qed

lemma fillRows_first: "0 < length rows \<Longrightarrow> fillRows r t a rows ! 0 = rows ! 0"
  by (cases rows) (simp_all add: fillRows_def)

lemma fillDownStep_short: "length c \<le> r \<Longrightarrow> fillDownStep r t a p c = c"
  by (simp add: fillDownStep_def)

lemma fillDownStep_changed:
  "fillDownStep r t a p c \<noteq> c \<Longrightarrow> max t a < length p \<and> r < length c"
  by (auto simp: fillDownStep_def Let_def split: if_splits)

lemma length_splitRow_joinRow: "wfRow x \<Longrightarrow> length (split CHR '','' (joinRow x)) = length x"
proof -
  assume w: "wfRow x"
  have "length (splitRow (joinRow x)) = length x"
    by (simp only: splitRow_joinRow [OF w] length_normRow)
  then show ?thesis by (simp add: splitRow_def)
qed

text \<open>
  Claim C4, amended. For lines whose header has the three columns, at the indices \<open>r\<close>,
  \<open>t\<close> and \<open>a\<close>, the corrected list has as many lines as the input, and for every data
  line \<open>i\<close>: if the line has at most \<open>r\<close> fields (it does not reach the "Run Num" index)
  it is returned unchanged; and if it is changed, then it is not the first data line, its
  own fields reach the "Run Num" index, and the line before it, as the correction leaves
  it, has more than \<open>max t a\<close> fields, enough for the "Pick Up Time" and the "Pickup
  Address" index.
\<close>

theorem fill_down_guard:
  "headerIndices (hd csvLines) = Some (r, t, a) \<Longrightarrow> 0 < i \<Longrightarrow> i < length csvLines \<Longrightarrow>
     length (applyFillDownLogic csvLines) = length csvLines
   \<and> (length (split CHR '','' (csvLines ! i)) \<le> r
        \<longrightarrow> applyFillDownLogic csvLines ! i = csvLines ! i)
   \<and> (applyFillDownLogic csvLines ! i \<noteq> csvLines ! i
        \<longrightarrow> 1 < i
          \<and> max t a < length (split CHR '','' (applyFillDownLogic csvLines ! (i - 1)))
          \<and> r < length (split CHR '','' (csvLines ! i)))"
proof -
  assume h: "headerIndices (hd csvLines) = Some (r, t, a)" and i: "0 < i" "i < length csvLines"
  let ?rows = "map splitRow (tl csvLines)"
  let ?P = "fillRows r t a ?rows"
  from i have l: "\<not> length csvLines \<le> 1" by simp
  have out: "applyFillDownLogic csvLines = hd csvLines # map joinRow ?P"
    using l h by (simp add: applyFillDownLogic_unfold)
  from i obtain j where j: "i = Suc j" by (cases i) auto
  with i have jl: "j < length ?rows" by simp
  have len: "length (applyFillDownLogic csvLines) = length csvLines"
    using l by (simp add: out length_fillRows)
  have row: "?rows ! j = splitRow (csvLines ! i)"
    using jl j by (simp add: nth_tl)
  have line: "csvLines ! i = joinRow (?rows ! j)"
    by (simp only: row joinRow_splitRow)
  have oi: "applyFillDownLogic csvLines ! i = joinRow (?P ! j)"
    using jl by (simp add: out j length_fillRows)
  have fields: "length (split CHR '','' (csvLines ! i)) = length (?rows ! j)"
    by (simp add: row splitRow_def)
  have w: "list_all wfRow ?P"
    by (rule wfRow_fillRows) (simp add: list_all_iff wfRow_splitRow)
  have short: "applyFillDownLogic csvLines ! i = csvLines ! i"
    if s: "length (split CHR '','' (csvLines ! i)) \<le> r"
  proof (cases "j = 0")
    case True
    with jl have "?P ! j = ?rows ! j" by (simp add: fillRows_first)
    then show ?thesis by (simp only: oi line)
  next
    case False
    then have "?P ! j = fillDownStep r t a (?P ! (j - 1)) (?rows ! j)"
      using jl by (simp add: fillRows_nth)
    also have "\<dots> = ?rows ! j" using s by (simp only: fields fillDownStep_short)
    finally show ?thesis by (simp only: oi line)
  qed
  have changed: "1 < i
      \<and> max t a < length (split CHR '','' (applyFillDownLogic csvLines ! (i - 1)))
      \<and> r < length (split CHR '','' (csvLines ! i))"
    if c: "applyFillDownLogic csvLines ! i \<noteq> csvLines ! i"
  proof -
    from c have ne: "?P ! j \<noteq> ?rows ! j" unfolding oi line by auto
    have j0: "j \<noteq> 0"
    proof
      assume "j = 0"
      with jl have "?P ! j = ?rows ! j" by (simp add: fillRows_first)
      with ne show False ..
    qed
    then have st: "?P ! j = fillDownStep r t a (?P ! (j - 1)) (?rows ! j)"
      using jl by (simp add: fillRows_nth)
    with ne have "fillDownStep r t a (?P ! (j - 1)) (?rows ! j) \<noteq> ?rows ! j" by simp
    then have g: "max t a < length (?P ! (j - 1))" "r < length (?rows ! j)"
      using fillDownStep_changed by blast+
    have pl: "j - 1 < length ?P" using jl by (simp add: length_fillRows)
    then have "wfRow (?P ! (j - 1))" using w by (simp add: list_all_length)
    then have "length (split CHR '','' (joinRow (?P ! (j - 1)))) = length (?P ! (j - 1))"
      by (rule length_splitRow_joinRow)
    moreover have "applyFillDownLogic csvLines ! (i - 1) = joinRow (?P ! (j - 1))"
      using j0 pl by (simp add: out j nth_Cons')
    ultimately have "max t a < length (split CHR '','' (applyFillDownLogic csvLines ! (i - 1)))"
      using g(1) by simp
    moreover have "1 < i" using j j0 by simp
    ultimately show ?thesis using g(2) by (simp add: fields)
  qed
  have f2: "length (split CHR '','' (csvLines ! i)) \<le> r
      \<longrightarrow> applyFillDownLogic csvLines ! i = csvLines ! i"
    by (rule impI) (rule short)
  have f3: "applyFillDownLogic csvLines ! i \<noteq> csvLines ! i
      \<longrightarrow> 1 < i
        \<and> max t a < length (split CHR '','' (applyFillDownLogic csvLines ! (i - 1)))
        \<and> r < length (split CHR '','' (csvLines ! i))"
    by (rule impI) (rule changed)
  show ?thesis by (intro conjI len f2 f3)
qed

text \<open>
  Claim C4, as stated, fails for the rows that have the run number but not the two pickup
  columns: the loop only checks that the current row reaches the "Run Num" index. Under the
  header of the example, with the columns at the indices 1, 2 and 5, the row "2025-01-01,5"
  has two fields, fewer than the six the claim asks for; it follows a row of the same run
  and is extended with the pickup time and address of that row.
\<close>

theorem fill_down_guard_counterexample:
  "headerIndices (hd shortRowLines) = Some (1, 2, 5)
   \<and> length (split CHR '','' (shortRowLines ! 2)) = 2
   \<and> shortRowLines ! 2 = ''2025-01-01,5''
   \<and> applyFillDownLogic shortRowLines ! 2 = ''2025-01-01,5,09:00,,,123 Main''"
  by code_simp

theorem fill_down_guard_witness:
  "applyFillDownLogic specLines ! 2 = ''2025-01-01,5,09:00,Bob,2,123 Main,789 Elm,09:45,,10''
   \<and> length (applyFillDownLogic specLines) = 3
   \<and> max 2 5 < length (split CHR '','' (applyFillDownLogic specLines ! (2 - 1)))"
proof -
  have h: "headerIndices (hd specLines) = Some (1, 2, 5)" by code_simp
  have i1: "0 < (2::nat)" by simp
  have i2: "2 < length specLines" by (simp add: specLines_def)
  have o: "applyFillDownLogic specLines ! 2
      = ''2025-01-01,5,09:00,Bob,2,123 Main,789 Elm,09:45,,10''" by code_simp
  have n: "specLines ! 2 \<noteq> ''2025-01-01,5,09:00,Bob,2,123 Main,789 Elm,09:45,,10''"
    by (simp add: specLines_def)
  have l3: "length specLines = 3" by (simp add: specLines_def)
  from fill_down_guard [OF h i1 i2] o n l3 show ?thesis by simp
qed

theorem applyFillDownLogic_idempotent_witness:
  "applyFillDownLogic (applyFillDownLogic specLines) =
     [specLines ! 0, specLines ! 1, ''2025-01-01,5,09:00,Bob,2,123 Main,789 Elm,09:45,,10'']"
proof -
  have "applyFillDownLogic specLines =
     [specLines ! 0, specLines ! 1, ''2025-01-01,5,09:00,Bob,2,123 Main,789 Elm,09:45,,10'']"
    by code_simp
  then show ?thesis
    unfolding applyFillDownLogic_idempotent [of specLines] .
qed

end
